theory Spec2Isabelle
  imports Complex_Main
begin

section \<open>Vectors and C++ integer operations\<close>

text \<open>
  The benchmark \<^verbatim>\<open>tConvolveOMP.cc\<close> works on \<^verbatim>\<open>std::vector\<close>s that it indexes with
  \<^verbatim>\<open>int\<close>s and without any bounds check.  A vector is a list; an access outside
  the vector is undefined behaviour in C++ and is the value \<open>None\<close> here.  The
  \<^verbatim>\<open>int\<close>s of the source are modelled by \<open>int\<close>: signed overflow is undefined
  behaviour as well, and the indices of the kernels stay between zero and the
  sizes of the vectors under the preconditions used below.

  The grid and table values (\<^verbatim>\<open>std::complex<float>\<close>) are kept polymorphic: the
  kernels only add and multiply them, and no law of arithmetic (associativity,
  commutativity) is assumed for them anywhere, so every result about the kernels
  holds for an arithmetic that rounds.
\<close>

definition vec_at :: "'a list \<Rightarrow> int \<Rightarrow> 'a option" where
  "vec_at xs i = (if 0 \<le> i \<and> i < int (length xs) then Some (xs ! nat i) else None)"

text \<open>Integer division and remainder of C++ truncate towards zero.\<close>

definition c_div :: "int \<Rightarrow> int \<Rightarrow> int" where
  "c_div a b = sgn a * sgn b * (\<bar>a\<bar> div \<bar>b\<bar>)"

definition c_rem :: "int \<Rightarrow> int \<Rightarrow> int" where
  "c_rem a b = a - b * c_div a b"

section \<open>Sequential gridding: \<^verbatim>\<open>gridKernel\<close>\<close>

text \<open>
  The innermost loop (over \<^verbatim>\<open>suppu\<close>) walks the two pointers \<^verbatim>\<open>gptr\<close> and
  \<^verbatim>\<open>cptr\<close> and adds \<^verbatim>\<open>d\<close> times the table entry under \<^verbatim>\<open>cptr\<close> to the grid cell
  under \<^verbatim>\<open>gptr\<close>, advancing both.
\<close>

function gridKernel_suppu ::
  "int \<Rightarrow> int \<Rightarrow> 'a::{plus,times} \<Rightarrow> 'a list \<Rightarrow> int \<Rightarrow> 'a list \<Rightarrow> int \<Rightarrow> 'a list option" where
  "gridKernel_suppu suppu sSize d C cptr grid gptr =
     (if suppu < sSize then
        (case (vec_at grid gptr, vec_at C cptr) of
           (Some g, Some c) \<Rightarrow>
             gridKernel_suppu (suppu + 1) sSize d C (cptr + 1) (grid[nat gptr := g + d * c]) (gptr + 1)
         | _ \<Rightarrow> None)
      else Some grid)"
  by pat_completeness auto
termination
  by (relation "measure (\<lambda>(suppu, sSize, d, C, cptr, grid, gptr). nat (sSize - suppu))") auto

declare gridKernel_suppu.simps [simp del]

text \<open>
  The loop over the stencil rows (\<^verbatim>\<open>suppv\<close>): one row of the stencil, then
  \<^verbatim>\<open>gind += gSize\<close> and \<^verbatim>\<open>cind += sSize\<close>.
\<close>

function gridKernel_suppv ::
  "int \<Rightarrow> int \<Rightarrow> int \<Rightarrow> 'a::{plus,times} \<Rightarrow> 'a list \<Rightarrow> int \<Rightarrow> 'a list \<Rightarrow> int \<Rightarrow> 'a list option" where
  "gridKernel_suppv suppv sSize gSize d C cind grid gind =
     (if suppv < sSize then
        (case gridKernel_suppu 0 sSize d C cind grid gind of
           None \<Rightarrow> None
         | Some grid' \<Rightarrow>
             gridKernel_suppv (suppv + 1) sSize gSize d C (cind + sSize) grid' (gind + gSize))
      else Some grid)"
  by pat_completeness auto
termination
  by (relation "measure (\<lambda>(suppv, sSize, gSize, d, C, cind, grid, gind). nat (sSize - suppv))") auto

declare gridKernel_suppv.simps [simp del]

text \<open>The loop over the samples (\<^verbatim>\<open>dind\<close>).\<close>

function gridKernel_dind ::
  "int \<Rightarrow> 'a::{plus,times} list \<Rightarrow> int \<Rightarrow> 'a list \<Rightarrow> int list \<Rightarrow> int list \<Rightarrow> int list \<Rightarrow>
   'a list \<Rightarrow> int \<Rightarrow> 'a list option" where
  "gridKernel_dind dind data support C cOffset iu iv grid gSize =
     (if dind < int (length data) then
        (case (vec_at iu dind, vec_at iv dind, vec_at cOffset dind) of
           (Some u, Some v, Some cind) \<Rightarrow>
             (case gridKernel_suppv 0 (2 * support + 1) gSize (data ! nat dind) C cind grid
                     (u + gSize * v - support) of
                None \<Rightarrow> None
              | Some grid' \<Rightarrow> gridKernel_dind (dind + 1) data support C cOffset iu iv grid' gSize)
         | _ \<Rightarrow> None)
      else Some grid)"
  by pat_completeness auto
termination
  by (relation "measure (\<lambda>(dind, data, support, C, cOffset, iu, iv, grid, gSize).
        nat (int (length data) - dind))") auto

declare gridKernel_dind.simps [simp del]

definition gridKernel ::
  "'a::{plus,times} list \<Rightarrow> int \<Rightarrow> 'a list \<Rightarrow> int list \<Rightarrow> int list \<Rightarrow> int list \<Rightarrow>
   'a list \<Rightarrow> int \<Rightarrow> 'a list option" where
  "gridKernel data support C cOffset iu iv grid gSize =
     gridKernel_dind 0 data support C cOffset iu iv grid gSize"

section \<open>Parallel gridding: \<^verbatim>\<open>gridKernelOMP\<close>\<close>

text \<open>
  Every thread of the parallel region runs the same three loops over all the
  samples and performs the row update only when its rotating counter \<^verbatim>\<open>row\<close>
  equals its thread number.  The control flow of a thread reads the offset
  tables only, never the grid, so a thread is the sequence of the
  read-modify-write operations \<^verbatim>\<open>grid[gind] += data[dind] * C[cind]\<close> it issues,
  in program order.  An operation records the sample and the stencil row it
  comes from; \<open>Fault\<close> is a read outside one of the offset tables.  An
  operation is one step of a run: no two threads touch the same cell when the
  stencil columns stay inside a grid row (row ownership, proved below), so that
  splitting an operation into its read and its write allows no other result.
\<close>

datatype gop = Op (op_dind: int) (op_suppv: int) (op_gind: int) (op_cind: int) | Fault

function gridKernelOMP_suppu :: "int \<Rightarrow> int \<Rightarrow> int \<Rightarrow> int \<Rightarrow> int \<Rightarrow> int \<Rightarrow> gop list" where
  "gridKernelOMP_suppu suppu sSize dind suppv gptr cptr =
     (if suppu < sSize then
        Op dind suppv gptr cptr #
        gridKernelOMP_suppu (suppu + 1) sSize dind suppv (gptr + 1) (cptr + 1)
      else [])"
  by pat_completeness auto
termination
  by (relation "measure (\<lambda>(suppu, sSize, dind, suppv, gptr, cptr). nat (sSize - suppu))") auto

declare gridKernelOMP_suppu.simps [simp del]

function gridKernelOMP_suppv ::
  "int \<Rightarrow> int \<Rightarrow> int \<Rightarrow> int \<Rightarrow> int \<Rightarrow> int \<Rightarrow> int \<Rightarrow> int \<Rightarrow> int \<Rightarrow> gop list" where
  "gridKernelOMP_suppv tid nthreads suppv sSize gSize dind gind cind row =
     (if suppv < sSize then
        (if row = tid then gridKernelOMP_suppu 0 sSize dind suppv gind cind else []) @
        gridKernelOMP_suppv tid nthreads (suppv + 1) sSize gSize dind (gind + gSize) (cind + sSize)
          (if row + 1 \<ge> nthreads then 0 else row + 1)
      else [])"
  by pat_completeness auto
termination
  by (relation "measure (\<lambda>(tid, nthreads, suppv, sSize, gSize, dind, gind, cind, row).
        nat (sSize - suppv))") auto

declare gridKernelOMP_suppv.simps [simp del]

function gridKernelOMP_dind ::
  "int \<Rightarrow> int \<Rightarrow> int \<Rightarrow> int \<Rightarrow> int \<Rightarrow> int list \<Rightarrow> int list \<Rightarrow> int list \<Rightarrow> int \<Rightarrow> gop list" where
  "gridKernelOMP_dind tid nthreads dind n support cOffset iu iv gSize =
     (if dind < n then
        (case (vec_at iu dind, vec_at iv dind, vec_at cOffset dind) of
           (Some u, Some v, Some cind) \<Rightarrow>
             gridKernelOMP_suppv tid nthreads 0 (2 * support + 1) gSize dind
               (u + gSize * v - support) cind (c_rem v nthreads) @
             gridKernelOMP_dind tid nthreads (dind + 1) n support cOffset iu iv gSize
         | _ \<Rightarrow> [Fault])
      else [])"
  by pat_completeness auto
termination
  by (relation "measure (\<lambda>(tid, nthreads, dind, n, support, cOffset, iu, iv, gSize).
        nat (n - dind))") auto

declare gridKernelOMP_dind.simps [simp del]

text \<open>The operations of thread \<open>tid\<close> out of \<open>nthreads\<close>, for \<open>n\<close> samples.\<close>

definition gridKernelOMP_thread ::
  "int \<Rightarrow> int \<Rightarrow> nat \<Rightarrow> int \<Rightarrow> int list \<Rightarrow> int list \<Rightarrow> int list \<Rightarrow> int \<Rightarrow> gop list" where
  "gridKernelOMP_thread tid nthreads n support cOffset iu iv gSize =
     gridKernelOMP_dind tid nthreads 0 (int n) support cOffset iu iv gSize"

text \<open>One operation on the shared grid, and a sequence of them.\<close>

fun exec_op :: "'a::{plus,times} list \<Rightarrow> 'a list \<Rightarrow> 'a list \<Rightarrow> gop \<Rightarrow> 'a list option" where
  "exec_op data C grid (Op dind suppv gind cind) =
     (case (vec_at grid gind, vec_at C cind) of
        (Some g, Some c) \<Rightarrow> Some (grid[nat gind := g + data ! nat dind * c])
      | _ \<Rightarrow> None)"
| "exec_op data C grid Fault = None"

fun exec_ops :: "'a::{plus,times} list \<Rightarrow> 'a list \<Rightarrow> gop list \<Rightarrow> 'a list \<Rightarrow> 'a list option" where
  "exec_ops data C [] grid = Some grid"
| "exec_ops data C (x # xs) grid =
     (case exec_op data C grid x of None \<Rightarrow> None | Some grid' \<Rightarrow> exec_ops data C xs grid')"

text \<open>
  A run of the parallel region interleaves the threads.  A schedule names, step
  by step, the thread that performs its next operation; \<open>is_schedule\<close> holds
  when every step names a thread that still has work and all the threads have
  finished at the end (the join of the region).
\<close>

fun interleave :: "nat list \<Rightarrow> 'b list list \<Rightarrow> 'b list" where
  "interleave [] pend = []"
| "interleave (t # sched) pend =
     (if t < length pend then
        (case pend ! t of
           [] \<Rightarrow> interleave sched pend
         | x # rest \<Rightarrow> x # interleave sched (pend[t := rest]))
      else interleave sched pend)"

fun is_schedule :: "nat list \<Rightarrow> 'b list list \<Rightarrow> bool" where
  "is_schedule [] pend = list_all (\<lambda>p. p = []) pend"
| "is_schedule (t # sched) pend =
     (t < length pend \<and> pend ! t \<noteq> [] \<and> is_schedule sched (pend[t := tl (pend ! t)]))"

definition gridKernelOMP_threads ::
  "int \<Rightarrow> nat \<Rightarrow> int \<Rightarrow> int list \<Rightarrow> int list \<Rightarrow> int list \<Rightarrow> int \<Rightarrow> gop list list" where
  "gridKernelOMP_threads nthreads n support cOffset iu iv gSize =
     map (\<lambda>t. gridKernelOMP_thread (int t) nthreads n support cOffset iu iv gSize)
       [0..<nat nthreads]"

definition gridKernelOMP ::
  "nat list \<Rightarrow> int \<Rightarrow> 'a::{plus,times} list \<Rightarrow> int \<Rightarrow> 'a list \<Rightarrow> int list \<Rightarrow> int list \<Rightarrow>
   int list \<Rightarrow> 'a list \<Rightarrow> int \<Rightarrow> 'a list option" where
  "gridKernelOMP sched nthreads data support C cOffset iu iv grid gSize =
     exec_ops data C
       (interleave sched
          (gridKernelOMP_threads nthreads (length data) support cOffset iu iv gSize))
       grid"

section \<open>Degridding: \<^verbatim>\<open>degridKernel\<close> and \<^verbatim>\<open>degridKernelOMP\<close>\<close>

text \<open>
  The innermost loop accumulates into \<^verbatim>\<open>data[dind]\<close>, in place, the product of the
  grid cell under \<^verbatim>\<open>gptr\<close> and the table entry under \<^verbatim>\<open>cptr\<close>, advancing both.
\<close>

function degridKernel_suppu ::
  "int \<Rightarrow> int \<Rightarrow> 'a::{zero,plus,times} list \<Rightarrow> int \<Rightarrow> 'a list \<Rightarrow> int \<Rightarrow> 'a list \<Rightarrow> int \<Rightarrow>
   'a list option" where
  "degridKernel_suppu suppu sSize grid gptr C cptr data dind =
     (if suppu < sSize then
        (case (vec_at grid gptr, vec_at C cptr) of
           (Some g, Some c) \<Rightarrow>
             degridKernel_suppu (suppu + 1) sSize grid (gptr + 1) C (cptr + 1)
               (data[nat dind := data ! nat dind + g * c]) dind
         | _ \<Rightarrow> None)
      else Some data)"
  by pat_completeness auto
termination
  by (relation "measure (\<lambda>(suppu, sSize, grid, gptr, C, cptr, data, dind). nat (sSize - suppu))")
     auto

declare degridKernel_suppu.simps [simp del]

function degridKernel_suppv ::
  "int \<Rightarrow> int \<Rightarrow> int \<Rightarrow> 'a::{zero,plus,times} list \<Rightarrow> int \<Rightarrow> 'a list \<Rightarrow> int \<Rightarrow> 'a list \<Rightarrow> int \<Rightarrow>
   'a list option" where
  "degridKernel_suppv suppv sSize gSize grid gind C cind data dind =
     (if suppv < sSize then
        (case degridKernel_suppu 0 sSize grid gind C cind data dind of
           None \<Rightarrow> None
         | Some data' \<Rightarrow>
             degridKernel_suppv (suppv + 1) sSize gSize grid (gind + gSize) C (cind + sSize)
               data' dind)
      else Some data)"
  by pat_completeness auto
termination
  by (relation "measure (\<lambda>(suppv, sSize, gSize, grid, gind, C, cind, data, dind).
        nat (sSize - suppv))") auto

declare degridKernel_suppv.simps [simp del]

text \<open>
  The body of the loop over the samples: \<^verbatim>\<open>data[dind] = 0.0\<close>, then the stencil.
\<close>

definition degridKernel_sample ::
  "'a::{zero,plus,times} list \<Rightarrow> int \<Rightarrow> int \<Rightarrow> 'a list \<Rightarrow> int list \<Rightarrow> int list \<Rightarrow> int list \<Rightarrow>
   'a list \<Rightarrow> int \<Rightarrow> 'a list option" where
  "degridKernel_sample grid gSize support C cOffset iu iv data dind =
     (case (vec_at iu dind, vec_at iv dind, vec_at cOffset dind) of
        (Some u, Some v, Some cind) \<Rightarrow>
          degridKernel_suppv 0 (2 * support + 1) gSize grid (u + gSize * v - support) C cind
            (data[nat dind := 0]) dind
      | _ \<Rightarrow> None)"

text \<open>
  The loops keep the size of \<^verbatim>\<open>data\<close>, which bounds the loop over the samples.
\<close>

lemma degridKernel_suppu_length:
  "degridKernel_suppu suppu sSize grid gptr C cptr data dind = Some data' \<Longrightarrow>
   length data' = length data"
proof (induction suppu sSize grid gptr C cptr data dind rule: degridKernel_suppu.induct)
  case (1 suppu sSize grid gptr C cptr data dind)
  show ?case
  proof (cases "suppu < sSize")
    case True
    then show ?thesis
      using "1.prems" "1.IH"
      by (subst (asm) degridKernel_suppu.simps) (auto split: option.splits)
  next
    case False
    then show ?thesis
      using "1.prems" by (subst (asm) degridKernel_suppu.simps) simp
  qed
qed

lemma degridKernel_suppv_length:
  "degridKernel_suppv suppv sSize gSize grid gind C cind data dind = Some data' \<Longrightarrow>
   length data' = length data"
proof (induction suppv sSize gSize grid gind C cind data dind rule: degridKernel_suppv.induct)
  case (1 suppv sSize gSize grid gind C cind data dind)
  show ?case
  proof (cases "suppv < sSize")
    case True
    then show ?thesis
      using "1.prems" "1.IH" degridKernel_suppu_length
      by (subst (asm) degridKernel_suppv.simps) (fastforce split: option.splits)
  next
    case False
    then show ?thesis
      using "1.prems" by (subst (asm) degridKernel_suppv.simps) simp
  qed
qed

lemma degridKernel_sample_length:
  "degridKernel_sample grid gSize support C cOffset iu iv data dind = Some data' \<Longrightarrow>
   length data' = length data"
  by (auto simp: degridKernel_sample_def split: option.splits dest: degridKernel_suppv_length)

function degridKernel_dind ::
  "int \<Rightarrow> 'a::{zero,plus,times} list \<Rightarrow> int \<Rightarrow> int \<Rightarrow> 'a list \<Rightarrow> int list \<Rightarrow> int list \<Rightarrow>
   int list \<Rightarrow> 'a list \<Rightarrow> 'a list option" where
  "degridKernel_dind dind grid gSize support C cOffset iu iv data =
     (if dind < int (length data) then
        (case degridKernel_sample grid gSize support C cOffset iu iv data dind of
           None \<Rightarrow> None
         | Some data' \<Rightarrow> degridKernel_dind (dind + 1) grid gSize support C cOffset iu iv data')
      else Some data)"
  by pat_completeness auto
termination
  by (relation "measure (\<lambda>(dind, grid, gSize, support, C, cOffset, iu, iv, data).
        nat (int (length data) - dind))") (auto dest: degridKernel_sample_length)

declare degridKernel_dind.simps [simp del]

definition degridKernel ::
  "'a::{zero,plus,times} list \<Rightarrow> int \<Rightarrow> int \<Rightarrow> 'a list \<Rightarrow> int list \<Rightarrow> int list \<Rightarrow> int list \<Rightarrow>
   'a list \<Rightarrow> 'a list option" where
  "degridKernel grid gSize support C cOffset iu iv data =
     degridKernel_dind 0 grid gSize support C cOffset iu iv data"

text \<open>
  \<^verbatim>\<open>degridKernelOMP\<close> has the same body under
  \<^verbatim>\<open>#pragma omp parallel for schedule(dynamic, 32)\<close>: every iteration is run once, by
  some thread, at some time.  An iteration reads the offset tables and issues a
  fixed sequence of operations on \<^verbatim>\<open>data\<close>: the store of zero, then one
  accumulation per stencil cell.  A run is an interleaving of the sequences of
  all the iterations (\<open>is_schedule\<close>, with one entry per iteration); this covers
  every assignment of iterations to threads.
\<close>

datatype dop = Zero (dop_dind: int) | Acc (dop_dind: int) (dop_gind: int) (dop_cind: int) | DFault

function degridKernelOMP_suppu :: "int \<Rightarrow> int \<Rightarrow> int \<Rightarrow> int \<Rightarrow> int \<Rightarrow> dop list" where
  "degridKernelOMP_suppu suppu sSize dind gptr cptr =
     (if suppu < sSize then
        Acc dind gptr cptr # degridKernelOMP_suppu (suppu + 1) sSize dind (gptr + 1) (cptr + 1)
      else [])"
  by pat_completeness auto
termination
  by (relation "measure (\<lambda>(suppu, sSize, dind, gptr, cptr). nat (sSize - suppu))") auto

declare degridKernelOMP_suppu.simps [simp del]

function degridKernelOMP_suppv :: "int \<Rightarrow> int \<Rightarrow> int \<Rightarrow> int \<Rightarrow> int \<Rightarrow> int \<Rightarrow> dop list" where
  "degridKernelOMP_suppv suppv sSize gSize dind gind cind =
     (if suppv < sSize then
        degridKernelOMP_suppu 0 sSize dind gind cind @
        degridKernelOMP_suppv (suppv + 1) sSize gSize dind (gind + gSize) (cind + sSize)
      else [])"
  by pat_completeness auto
termination
  by (relation "measure (\<lambda>(suppv, sSize, gSize, dind, gind, cind). nat (sSize - suppv))") auto

declare degridKernelOMP_suppv.simps [simp del]

definition degridKernelOMP_sample ::
  "int \<Rightarrow> int \<Rightarrow> int list \<Rightarrow> int list \<Rightarrow> int list \<Rightarrow> int \<Rightarrow> dop list" where
  "degridKernelOMP_sample gSize support cOffset iu iv dind =
     Zero dind #
     (case (vec_at iu dind, vec_at iv dind, vec_at cOffset dind) of
        (Some u, Some v, Some cind) \<Rightarrow>
          degridKernelOMP_suppv 0 (2 * support + 1) gSize dind (u + gSize * v - support) cind
      | _ \<Rightarrow> [DFault])"

fun exec_dop :: "'a::{zero,plus,times} list \<Rightarrow> 'a list \<Rightarrow> 'a list \<Rightarrow> dop \<Rightarrow> 'a list option" where
  "exec_dop grid C data (Zero dind) =
     (if 0 \<le> dind \<and> dind < int (length data) then Some (data[nat dind := 0]) else None)"
| "exec_dop grid C data (Acc dind gind cind) =
     (case (vec_at data dind, vec_at grid gind, vec_at C cind) of
        (Some d, Some g, Some c) \<Rightarrow> Some (data[nat dind := d + g * c])
      | _ \<Rightarrow> None)"
| "exec_dop grid C data DFault = None"

fun exec_dops :: "'a::{zero,plus,times} list \<Rightarrow> 'a list \<Rightarrow> dop list \<Rightarrow> 'a list \<Rightarrow> 'a list option" where
  "exec_dops grid C [] data = Some data"
| "exec_dops grid C (x # xs) data =
     (case exec_dop grid C data x of None \<Rightarrow> None | Some data' \<Rightarrow> exec_dops grid C xs data')"

definition degridKernelOMP_iterations ::
  "nat \<Rightarrow> int \<Rightarrow> int \<Rightarrow> int list \<Rightarrow> int list \<Rightarrow> int list \<Rightarrow> dop list list" where
  "degridKernelOMP_iterations n gSize support cOffset iu iv =
     map (\<lambda>d. degridKernelOMP_sample gSize support cOffset iu iv (int d)) [0..<n]"

definition degridKernelOMP ::
  "nat list \<Rightarrow> 'a::{zero,plus,times} list \<Rightarrow> int \<Rightarrow> int \<Rightarrow> 'a list \<Rightarrow> int list \<Rightarrow> int list \<Rightarrow>
   int list \<Rightarrow> 'a list \<Rightarrow> 'a list option" where
  "degridKernelOMP sched grid gSize support C cOffset iu iv data =
     exec_dops grid C
       (interleave sched (degridKernelOMP_iterations (length data) gSize support cOffset iu iv))
       data"

section \<open>The convolution function: \<^verbatim>\<open>initC\<close>\<close>

text \<open>
  Coordinates (\<^verbatim>\<open>Coord\<close>, a \<^verbatim>\<open>double\<close>) are modelled by \<open>real\<close> in this section and
  in the next: the arithmetic on them is exact there, and the \<^verbatim>\<open>int\<close>s are unbounded.
  Both functions are modelled a second time further below, with the rounding of
  \<^verbatim>\<open>double\<close> and \<^verbatim>\<open>float\<close> and the range of \<^verbatim>\<open>int\<close>, for the properties that depend on
  them.  The conversion \<^verbatim>\<open>int(x)\<close> and \<^verbatim>\<open>static_cast<int>(x)\<close> of C++ truncates towards
  zero.
\<close>

definition c_int :: "real \<Rightarrow> int" where
  "c_int x = (if 0 \<le> x then \<lfloor>x\<rfloor> else \<lceil>x\<rceil>)"

text \<open>
  \<^verbatim>\<open>initC\<close> derives \<^verbatim>\<open>support\<close> and \<^verbatim>\<open>wCellSize\<close>, sets \<^verbatim>\<open>overSample = 8\<close>, fills the
  table and normalises it.  There is no result (\<open>None\<close>) where the C++ has none
  that a real number can stand for: \<^verbatim>\<open>freq[0]\<close> of an empty vector, a division by
  zero, the square root of a negative number on its way to an \<^verbatim>\<open>int\<close>, a negative
  size for \<^verbatim>\<open>resize\<close>.
\<close>

definition initC_support :: "real list \<Rightarrow> real \<Rightarrow> real \<Rightarrow> int option" where
  "initC_support freq cellSize baseline =
     (if freq = [] \<or> cellSize = 0 \<or> \<bar>baseline\<bar> * cellSize * freq ! 0 < 0 then None
      else Some (c_int (1.5 * sqrt (\<bar>baseline\<bar> * cellSize * freq ! 0) / cellSize)))"

definition initC_wCellSize :: "real list \<Rightarrow> real \<Rightarrow> int \<Rightarrow> real option" where
  "initC_wCellSize freq baseline wSize =
     (if freq = [] \<or> wSize = 0 then None
      else Some (2 * baseline * freq ! 0 / real_of_int wSize))"

text \<open>
  The table entry for w-plane \<open>k\<close>, oversampling bins \<open>osj\<close>, \<open>osi\<close> and stencil
  position \<open>j\<close>, \<open>i\<close>; the five nested loops that store the entries, in the order
  of the source; the normalisation by the sum of the magnitudes.
\<close>

definition initC_value ::
  "real list \<Rightarrow> real \<Rightarrow> real \<Rightarrow> int \<Rightarrow> int \<Rightarrow> int \<Rightarrow> int \<Rightarrow> int \<Rightarrow> int \<Rightarrow> int \<Rightarrow> int \<Rightarrow> complex" where
  "initC_value freq cellSize wCellSize wSize overSample cCenter k osj osi j i =
     (let w = real_of_int (k - c_div wSize 2);
          fScale = sqrt (\<bar>w\<bar> * wCellSize * freq ! 0) / cellSize;
          j2 = (real_of_int (j - cCenter) + real_of_int osj / real_of_int overSample)\<^sup>2;
          r2 = j2 + (real_of_int (i - cCenter) + real_of_int osi / real_of_int overSample)\<^sup>2
      in if w \<noteq> 0 then of_real (cos (r2 / (w * fScale))) else of_real (exp (- r2)))"

definition initC_fill ::
  "real list \<Rightarrow> real \<Rightarrow> real \<Rightarrow> int \<Rightarrow> int \<Rightarrow> int \<Rightarrow> complex list \<Rightarrow> complex list" where
  "initC_fill freq cellSize wCellSize wSize overSample sSize C0 =
     (let cCenter = c_div (sSize - 1) 2 in
      foldl (\<lambda>C k.
        foldl (\<lambda>C osj.
          foldl (\<lambda>C osi.
            foldl (\<lambda>C j.
              foldl (\<lambda>C i.
                C[nat (i + sSize * (j + sSize * (osi + overSample * (osj + overSample * k)))) :=
                    initC_value freq cellSize wCellSize wSize overSample cCenter k osj osi j i])
                C [0..sSize - 1])
              C [0..sSize - 1])
            C [0..overSample - 1])
          C [0..overSample - 1])
        C0 [0..wSize - 1])"

definition initC_normalise :: "int \<Rightarrow> int \<Rightarrow> int \<Rightarrow> complex list \<Rightarrow> complex list" where
  "initC_normalise wSize overSample n C =
     (let sumC = foldl (\<lambda>s i. s + cmod (C ! nat i)) 0 [0..n - 1] in
      foldl (\<lambda>C i. C[nat i := C ! nat i * of_real (real_of_int (wSize * overSample * overSample) / sumC)])
        C [0..n - 1])"

definition initC ::
  "real list \<Rightarrow> real \<Rightarrow> real \<Rightarrow> int \<Rightarrow> (int \<times> int \<times> real \<times> complex list) option" where
  "initC freq cellSize baseline wSize =
     (case (initC_support freq cellSize baseline, initC_wCellSize freq baseline wSize) of
        (Some support, Some wCellSize) \<Rightarrow>
          (let overSample = 8;
               sSize = 2 * support + 1;
               n = sSize * sSize * overSample * overSample * wSize
           in if n < 0 then None
              else Some (support, overSample, wCellSize,
                     initC_normalise wSize overSample n
                       (initC_fill freq cellSize wCellSize wSize overSample sSize
                          (replicate (nat n) 0))))
      | _ \<Rightarrow> None)"

section \<open>The offsets: \<^verbatim>\<open>initCOffset\<close>\<close>

text \<open>
  The integer part of a scaled coordinate as the source computes it
  (\<^verbatim>\<open>iu = int(uScaled); if (uScaled < Coord(iu)) iu -= 1;\<close>), the oversampling bin
  \<^verbatim>\<open>fracu\<close>, and the w-plane \<^verbatim>\<open>woff\<close>.
\<close>

definition initCOffset_floor :: "real \<Rightarrow> int" where
  "initCOffset_floor x = (let i = c_int x in if x < real_of_int i then i - 1 else i)"

definition initCOffset_frac :: "int \<Rightarrow> real \<Rightarrow> int" where
  "initCOffset_frac overSample x =
     c_int (real_of_int overSample * (x - real_of_int (initCOffset_floor x)))"

definition initCOffset_woff :: "int \<Rightarrow> real \<Rightarrow> int" where
  "initCOffset_woff wSize wScaled = c_div wSize 2 + c_int wScaled"

text \<open>
  The body of the loops, for one sample and one channel: the triple
  \<^verbatim>\<open>(cOffset[dind], iu[dind], iv[dind])\<close>.  A zero cell size gives no result.
\<close>

definition initCOffset_entry ::
  "real \<Rightarrow> real \<Rightarrow> real \<Rightarrow> real \<Rightarrow> real \<Rightarrow> real \<Rightarrow> int \<Rightarrow> int \<Rightarrow> int \<Rightarrow> int \<Rightarrow>
   (int \<times> int \<times> int) option" where
  "initCOffset_entry ui vi wi f cellSize wCellSize wSize gSize support overSample =
     (if cellSize = 0 \<or> wCellSize = 0 then None
      else
        let sSize = 2 * support + 1;
            uScaled = f * ui / cellSize;
            fracu = initCOffset_frac overSample uScaled;
            vScaled = f * vi / cellSize;
            fracv = initCOffset_frac overSample vScaled;
            wScaled = f * wi / wCellSize;
            woff = initCOffset_woff wSize wScaled
        in Some (sSize * sSize * (fracu + overSample * (fracv + overSample * woff)),
                 initCOffset_floor uScaled + c_div gSize 2,
                 initCOffset_floor vScaled + c_div gSize 2))"

text \<open>
  The loop over the channels and the loop over the samples store the triple at
  \<^verbatim>\<open>dind = i * nChan + chan\<close> of the three vectors, which \<^verbatim>\<open>initCOffset\<close> has resized
  to \<^verbatim>\<open>nSamples * nChan\<close>.
\<close>

function initCOffset_chan ::
  "int \<Rightarrow> int \<Rightarrow> int \<Rightarrow> real list \<Rightarrow> real list \<Rightarrow> real list \<Rightarrow> real list \<Rightarrow> real \<Rightarrow> real \<Rightarrow>
   int \<Rightarrow> int \<Rightarrow> int \<Rightarrow> int \<Rightarrow> int list \<times> int list \<times> int list \<Rightarrow>
   (int list \<times> int list \<times> int list) option" where
  "initCOffset_chan chan nChan i u v w freq cellSize wCellSize wSize gSize support overSample tabs =
     (if chan < nChan then
        (case (vec_at u i, vec_at v i, vec_at w i, vec_at freq chan) of
           (Some ui, Some vi, Some wi, Some f) \<Rightarrow>
             (case initCOffset_entry ui vi wi f cellSize wCellSize wSize gSize support overSample of
                None \<Rightarrow> None
              | Some (co, eu, ev) \<Rightarrow>
                  (case tabs of
                     (cOffset, iu, iv) \<Rightarrow>
                       initCOffset_chan (chan + 1) nChan i u v w freq cellSize wCellSize wSize gSize
                         support overSample
                         (cOffset[nat (i * nChan + chan) := co],
                          iu[nat (i * nChan + chan) := eu],
                          iv[nat (i * nChan + chan) := ev])))
         | _ \<Rightarrow> None)
      else Some tabs)"
  by pat_completeness auto
termination
  by (relation "measure (\<lambda>(chan, nChan, i, u, v, w, freq, cellSize, wCellSize, wSize, gSize,
        support, overSample, tabs). nat (nChan - chan))") auto

declare initCOffset_chan.simps [simp del]

function initCOffset_i ::
  "int \<Rightarrow> int \<Rightarrow> int \<Rightarrow> real list \<Rightarrow> real list \<Rightarrow> real list \<Rightarrow> real list \<Rightarrow> real \<Rightarrow> real \<Rightarrow>
   int \<Rightarrow> int \<Rightarrow> int \<Rightarrow> int \<Rightarrow> int list \<times> int list \<times> int list \<Rightarrow>
   (int list \<times> int list \<times> int list) option" where
  "initCOffset_i i nSamples nChan u v w freq cellSize wCellSize wSize gSize support overSample tabs =
     (if i < nSamples then
        (case initCOffset_chan 0 nChan i u v w freq cellSize wCellSize wSize gSize support
                overSample tabs of
           None \<Rightarrow> None
         | Some tabs' \<Rightarrow>
             initCOffset_i (i + 1) nSamples nChan u v w freq cellSize wCellSize wSize gSize
               support overSample tabs')
      else Some tabs)"
  by pat_completeness auto
termination
  by (relation "measure (\<lambda>(i, nSamples, nChan, u, v, w, freq, cellSize, wCellSize, wSize, gSize,
        support, overSample, tabs). nat (nSamples - i))") auto

declare initCOffset_i.simps [simp del]

definition initCOffset ::
  "real list \<Rightarrow> real list \<Rightarrow> real list \<Rightarrow> real list \<Rightarrow> real \<Rightarrow> real \<Rightarrow> int \<Rightarrow> int \<Rightarrow> int \<Rightarrow> int \<Rightarrow>
   (int list \<times> int list \<times> int list) option" where
  "initCOffset u v w freq cellSize wCellSize wSize gSize support overSample =
     (let nSamples = int (length u);
          nChan = int (length freq);
          n = nat (nSamples * nChan)
      in initCOffset_i 0 nSamples nChan u v w freq cellSize wCellSize wSize gSize support
           overSample (replicate n 0, replicate n 0, replicate n 0))"

text \<open>
  The frequencies that \<^verbatim>\<open>main\<close> sets for \<open>nChan\<close> channels.
\<close>

definition main_freq :: "nat \<Rightarrow> real list" where
  "main_freq nChan =
     map (\<lambda>i. (1400000000 - 200000 * real i / real nChan) / 299800000) [0..<nChan]"

text \<open>
  The samples of \<^verbatim>\<open>main\<close> lie within half the baseline of the origin:
  \<^verbatim>\<open>u[i] = baseline * Coord(randomInt()) / Coord(maxint) - baseline / 2\<close>.
\<close>

definition within_baseline :: "real \<Rightarrow> real list \<Rightarrow> bool" where
  "within_baseline baseline xs \<longleftrightarrow> (\<forall>x\<in>set xs. \<bar>x\<bar> \<le> baseline / 2)"

text \<open>Reading the three tables at one index.\<close>

definition tabs_len :: "nat \<Rightarrow> int list \<times> int list \<times> int list \<Rightarrow> bool" where
  "tabs_len n tabs \<longleftrightarrow>
     length (fst tabs) = n \<and> length (fst (snd tabs)) = n \<and> length (snd (snd tabs)) = n"

definition tabs_nth :: "int list \<times> int list \<times> int list \<Rightarrow> nat \<Rightarrow> int \<times> int \<times> int" where
  "tabs_nth tabs k = (fst tabs ! k, fst (snd tabs) ! k, snd (snd tabs) ! k)"

definition entry_at ::
  "real list \<Rightarrow> real list \<Rightarrow> real list \<Rightarrow> real list \<Rightarrow> real \<Rightarrow> real \<Rightarrow> int \<Rightarrow> int \<Rightarrow> int \<Rightarrow> int \<Rightarrow>
   int \<Rightarrow> int \<Rightarrow> int \<times> int \<times> int" where
  "entry_at u v w freq cellSize wCellSize wSize gSize support overSample i chan =
     the (initCOffset_entry (u ! nat i) (v ! nat i) (w ! nat i) (freq ! nat chan)
            cellSize wCellSize wSize gSize support overSample)"

section \<open>Rounding: \<^verbatim>\<open>double\<close>, \<^verbatim>\<open>float\<close> and \<^verbatim>\<open>int\<close>\<close>

text \<open>
  An operation on \<^verbatim>\<open>double\<close>s or \<^verbatim>\<open>float\<close>s gives the exact result rounded to the
  nearest value of the format, a tie to the value with the even significand
  (IEEE 754 in its default mode).  \<open>ieee_round p emin x\<close> is this rounding for a
  significand of \<open>p\<close> bits and the least normal exponent \<open>emin\<close>: with
  \<open>binade x\<close> the exponent \<open>e\<close> such that \<open>2\<^sup>e \<le> |x| < 2\<^sup>e\<^sup>+\<^sup>1\<close>, the unit in the last
  place of \<open>x\<close> is two to the power \<open>max (binade x) emin - p + 1\<close>, which is constant
  below \<open>2\<^sup>e\<^sup>m\<^sup>i\<^sup>n\<close> (gradual underflow), and \<open>x\<close> is rounded to a multiple of it.
  The number of binary digits of a positive integer gives the exponent.
\<close>

function bit_width :: "int \<Rightarrow> int" where
  "bit_width n = (if n \<le> 0 then 0 else 1 + bit_width (n div 2))"
  by pat_completeness auto
termination
  by (relation "measure nat") auto

declare bit_width.simps [simp del]

definition pow2 :: "int \<Rightarrow> real" where
  "pow2 e = (if 0 \<le> e then 2 ^ nat e else 1 / 2 ^ nat (- e))"

definition binade :: "real \<Rightarrow> int" where
  "binade x = (if 1 \<le> \<bar>x\<bar> then bit_width \<lfloor>\<bar>x\<bar>\<rfloor> - 1 else - bit_width (\<lceil>1 / \<bar>x\<bar>\<rceil> - 1))"

definition round_even :: "real \<Rightarrow> int" where
  "round_even x =
     (let n = \<lfloor>x\<rfloor>; r = x - real_of_int n
      in if r < 1 / 2 then n else if 1 / 2 < r then n + 1 else if even n then n else n + 1)"

definition ieee_round :: "nat \<Rightarrow> int \<Rightarrow> real \<Rightarrow> real" where
  "ieee_round p emin x =
     (let ulp = pow2 (max (binade x) emin - int p + 1)
      in real_of_int (round_even (x / ulp)) * ulp)"

definition double_round :: "real \<Rightarrow> real" where
  "double_round = ieee_round 53 (- 1022)"

definition float_round :: "real \<Rightarrow> real" where
  "float_round = ieee_round 24 (- 126)"

text \<open>
  Not modelled: the overflow to an infinity (the values used below are far inside
  both formats), and the last digit of the library functions \<^verbatim>\<open>sqrt\<close>, \<^verbatim>\<open>pow\<close>,
  \<^verbatim>\<open>cos\<close>, \<^verbatim>\<open>exp\<close> and of the magnitude of a complex number, which are taken as
  correctly rounded.  The proofs use of a rounded operation only that rounding is
  monotone and leaves a value of the format unchanged.

  An \<^verbatim>\<open>int\<close> has 32 bits.  The conversion of a \<^verbatim>\<open>double\<close> whose integer part is not
  an \<^verbatim>\<open>int\<close>, and an \<^verbatim>\<open>int\<close> operation that overflows, are undefined: \<open>None\<close> in
  the functions below.
\<close>

definition int32 :: "int \<Rightarrow> bool" where
  "int32 n \<longleftrightarrow> - 2147483648 \<le> n \<and> n < 2147483648"

definition c_int32 :: "real \<Rightarrow> int option" where
  "c_int32 x = (if - 2147483649 < x \<and> x < 2147483648 then Some (c_int x) else None)"

section \<open>\<^verbatim>\<open>initC\<close> with rounding\<close>

text \<open>
  \<^verbatim>\<open>initC\<close> once more, every operation rounded to its type: \<^verbatim>\<open>support\<close> and
  \<^verbatim>\<open>wCellSize\<close> are computed in \<^verbatim>\<open>double\<close>.
\<close>

definition initC_support_double :: "real list \<Rightarrow> real \<Rightarrow> real \<Rightarrow> int option" where
  "initC_support_double freq cellSize baseline =
     (if freq = [] \<or> cellSize = 0 then None
      else
        let a = double_round (double_round (\<bar>baseline\<bar> * cellSize) * freq ! 0)
        in if a < 0 then None
           else c_int32 (double_round (double_round (1.5 * double_round (sqrt a)) / cellSize)))"

definition initC_wCellSize_double :: "real list \<Rightarrow> real \<Rightarrow> int \<Rightarrow> real option" where
  "initC_wCellSize_double freq baseline wSize =
     (if freq = [] \<or> wSize = 0 then None
      else Some (double_round (double_round (double_round (2 * baseline) * freq ! 0) /
                   real_of_int wSize)))"

text \<open>
  The table entry, computed in \<^verbatim>\<open>double\<close> and stored as a
  \<^verbatim>\<open>std::complex<float>\<close> with imaginary part zero: the scale \<^verbatim>\<open>fScale\<close> of w-plane
  \<open>w\<close>, the squared radius \<^verbatim>\<open>r2\<close>, and the entry.
\<close>

definition initC_fScale :: "real list \<Rightarrow> real \<Rightarrow> real \<Rightarrow> real \<Rightarrow> real" where
  "initC_fScale freq cellSize wCellSize w =
     double_round (double_round (sqrt (double_round (double_round (\<bar>w\<bar> * wCellSize) * freq ! 0))) /
       cellSize)"

definition initC_r2 :: "int \<Rightarrow> int \<Rightarrow> int \<Rightarrow> int \<Rightarrow> int \<Rightarrow> int \<Rightarrow> real" where
  "initC_r2 overSample cCenter osj osi j i =
     (let j2 = double_round ((double_round (real_of_int (j - cCenter) +
                 double_round (real_of_int osj / real_of_int overSample)))\<^sup>2)
      in double_round (j2 + double_round ((double_round (real_of_int (i - cCenter) +
           double_round (real_of_int osi / real_of_int overSample)))\<^sup>2)))"

definition initC_value_float ::
  "real list \<Rightarrow> real \<Rightarrow> real \<Rightarrow> int \<Rightarrow> int \<Rightarrow> int \<Rightarrow> int \<Rightarrow> int \<Rightarrow> int \<Rightarrow> int \<Rightarrow> int \<Rightarrow> complex" where
  "initC_value_float freq cellSize wCellSize wSize overSample cCenter k osj osi j i =
     (let w = real_of_int (k - c_div wSize 2);
          fScale = initC_fScale freq cellSize wCellSize w;
          r2 = initC_r2 overSample cCenter osj osi j i
      in if w \<noteq> 0
         then Complex (float_round (double_round (cos (double_round (r2 / double_round (w * fScale)))))) 0
         else Complex (float_round (double_round (exp (- r2)))) 0)"

text \<open>
  For a plane \<open>w \<noteq> 0\<close> the entries are numbers only if the square root is taken of
  a non-negative value and \<^verbatim>\<open>w * fScale\<close> is not zero; otherwise they are NaNs.
\<close>

definition initC_plane_finite :: "real list \<Rightarrow> real \<Rightarrow> real \<Rightarrow> int \<Rightarrow> int \<Rightarrow> bool" where
  "initC_plane_finite freq cellSize wCellSize wSize k =
     (let w = real_of_int (k - c_div wSize 2)
      in w = 0 \<or>
         (0 \<le> double_round (double_round (\<bar>w\<bar> * wCellSize) * freq ! 0) \<and>
          double_round (w * initC_fScale freq cellSize wCellSize w) \<noteq> 0))"

text \<open>The five loops that store the entries.\<close>

definition initC_fill_float ::
  "real list \<Rightarrow> real \<Rightarrow> real \<Rightarrow> int \<Rightarrow> int \<Rightarrow> int \<Rightarrow> complex list \<Rightarrow> complex list" where
  "initC_fill_float freq cellSize wCellSize wSize overSample sSize C0 =
     (let cCenter = c_div (sSize - 1) 2 in
      foldl (\<lambda>C k.
        foldl (\<lambda>C osj.
          foldl (\<lambda>C osi.
            foldl (\<lambda>C j.
              foldl (\<lambda>C i.
                C[nat (i + sSize * (j + sSize * (osi + overSample * (osj + overSample * k)))) :=
                    initC_value_float freq cellSize wCellSize wSize overSample cCenter k osj osi j i])
                C [0..sSize - 1])
              C [0..sSize - 1])
            C [0..overSample - 1])
          C [0..overSample - 1])
        C0 [0..wSize - 1])"

text \<open>
  The normalisation: \<^verbatim>\<open>Real sumC = 0.0\<close>, then \<^verbatim>\<open>sumC += abs(C[i])\<close> for every entry,
  in \<^verbatim>\<open>float\<close>; then \<^verbatim>\<open>C[i] *= Value(wSize * overSample * overSample / sumC)\<close>, a
  product of two \<^verbatim>\<open>std::complex<float>\<close>.  There is no result when \<^verbatim>\<open>sumC\<close> is zero.
\<close>

definition float_times :: "complex \<Rightarrow> complex \<Rightarrow> complex" where
  "float_times a b =
     Complex (float_round (float_round (Re a * Re b) - float_round (Im a * Im b)))
             (float_round (float_round (Re a * Im b) + float_round (Im a * Re b)))"

definition initC_sumC :: "int \<Rightarrow> complex list \<Rightarrow> real" where
  "initC_sumC n C =
     foldl (\<lambda>sumC i. float_round (sumC + float_round (cmod (C ! nat i)))) 0 [0..n - 1]"

definition initC_normalise_float :: "int \<Rightarrow> int \<Rightarrow> int \<Rightarrow> complex list \<Rightarrow> complex list option" where
  "initC_normalise_float wSize overSample n C =
     (let sumC = initC_sumC n C
      in if sumC \<noteq> 0 \<and> int32 (wSize * overSample) \<and> int32 (wSize * overSample * overSample)
         then
           let s = float_round (float_round (real_of_int (wSize * overSample * overSample)) / sumC)
           in Some (foldl (\<lambda>C i. C[nat i := float_times (C ! nat i) (Complex s 0)]) C [0..n - 1])
         else None)"

text \<open>
  \<^verbatim>\<open>initC\<close>.  The size passed to \<^verbatim>\<open>C.resize\<close> is the \<^verbatim>\<open>int\<close> product
  \<^verbatim>\<open>sSize*sSize*overSample*overSample*wSize\<close>, evaluated from the left.
\<close>

definition initC_float ::
  "real list \<Rightarrow> real \<Rightarrow> real \<Rightarrow> int \<Rightarrow> (int \<times> int \<times> real \<times> complex list) option" where
  "initC_float freq cellSize baseline wSize =
     (case (initC_support_double freq cellSize baseline, initC_wCellSize_double freq baseline wSize) of
        (Some support, Some wCellSize) \<Rightarrow>
          (let overSample = 8;
               sSize = 2 * support + 1;
               n = sSize * sSize * overSample * overSample * wSize
           in if 0 \<le> n \<and>
                 list_all int32 [2 * support, sSize, sSize * sSize, sSize * sSize * overSample,
                   sSize * sSize * overSample * overSample, n] \<and>
                 list_all (initC_plane_finite freq cellSize wCellSize wSize) [0..wSize - 1]
              then
                (case initC_normalise_float wSize overSample n
                        (initC_fill_float freq cellSize wCellSize wSize overSample sSize
                           (replicate (nat n) 0)) of
                   None \<Rightarrow> None
                 | Some C \<Rightarrow> Some (support, overSample, wCellSize, C))
              else None)
      | _ \<Rightarrow> None)"

section \<open>\<^verbatim>\<open>initCOffset\<close> with rounding\<close>

text \<open>
  \<^verbatim>\<open>initCOffset\<close> once more, in \<^verbatim>\<open>double\<close> and \<^verbatim>\<open>int\<close>: the integer part
  \<^verbatim>\<open>iu = int(uScaled); if (uScaled < Coord(iu)) iu -= 1;\<close> and the oversampling bin
  \<^verbatim>\<open>int(overSample * (uScaled - Coord(iu)))\<close>, in which the subtraction and the
  product are rounded.
\<close>

definition initCOffset_floor_double :: "real \<Rightarrow> int option" where
  "initCOffset_floor_double x =
     (case c_int32 x of
        None \<Rightarrow> None
      | Some i \<Rightarrow>
          if x < real_of_int i then (if int32 (i - 1) then Some (i - 1) else None) else Some i)"

definition initCOffset_frac_double :: "int \<Rightarrow> real \<Rightarrow> int \<Rightarrow> int option" where
  "initCOffset_frac_double overSample x ix =
     c_int32 (double_round (real_of_int overSample * double_round (x - real_of_int ix)))"

text \<open>
  The body of the loops, then the loops, as in the section on \<^verbatim>\<open>initCOffset\<close> above.
\<close>

definition initCOffset_entry_double ::
  "real \<Rightarrow> real \<Rightarrow> real \<Rightarrow> real \<Rightarrow> real \<Rightarrow> real \<Rightarrow> int \<Rightarrow> int \<Rightarrow> int \<Rightarrow> int \<Rightarrow>
   (int \<times> int \<times> int) option" where
  "initCOffset_entry_double ui vi wi f cellSize wCellSize wSize gSize support overSample =
     (if cellSize = 0 \<or> wCellSize = 0 then None
      else
        let sSize = 2 * support + 1;
            uScaled = double_round (double_round (f * ui) / cellSize);
            vScaled = double_round (double_round (f * vi) / cellSize);
            wScaled = double_round (double_round (f * wi) / wCellSize)
        in case (initCOffset_floor_double uScaled, initCOffset_floor_double vScaled,
                 c_int32 wScaled) of
             (Some iu, Some iv, Some wt) \<Rightarrow>
               (case (initCOffset_frac_double overSample uScaled iu,
                      initCOffset_frac_double overSample vScaled iv) of
                  (Some fracu, Some fracv) \<Rightarrow>
                    let woff = c_div wSize 2 + wt;
                        a = overSample * woff;
                        b = fracv + a;
                        c = overSample * b;
                        d = fracu + c
                    in if list_all int32
                            [2 * support, sSize, iu + c_div gSize 2, iv + c_div gSize 2,
                             woff, a, b, c, d, sSize * sSize, sSize * sSize * d]
                       then Some (sSize * sSize * d, iu + c_div gSize 2, iv + c_div gSize 2)
                       else None
                | _ \<Rightarrow> None)
           | _ \<Rightarrow> None)"

function initCOffset_chan_double ::
  "int \<Rightarrow> int \<Rightarrow> int \<Rightarrow> real list \<Rightarrow> real list \<Rightarrow> real list \<Rightarrow> real list \<Rightarrow> real \<Rightarrow> real \<Rightarrow>
   int \<Rightarrow> int \<Rightarrow> int \<Rightarrow> int \<Rightarrow> int list \<times> int list \<times> int list \<Rightarrow>
   (int list \<times> int list \<times> int list) option" where
  "initCOffset_chan_double chan nChan i u v w freq cellSize wCellSize wSize gSize support overSample
     tabs =
     (if chan < nChan then
        (case (vec_at u i, vec_at v i, vec_at w i, vec_at freq chan) of
           (Some ui, Some vi, Some wi, Some f) \<Rightarrow>
             (case initCOffset_entry_double ui vi wi f cellSize wCellSize wSize gSize support
                     overSample of
                None \<Rightarrow> None
              | Some (co, eu, ev) \<Rightarrow>
                  (case tabs of
                     (cOffset, iu, iv) \<Rightarrow>
                       initCOffset_chan_double (chan + 1) nChan i u v w freq cellSize wCellSize wSize
                         gSize support overSample
                         (cOffset[nat (i * nChan + chan) := co],
                          iu[nat (i * nChan + chan) := eu],
                          iv[nat (i * nChan + chan) := ev])))
         | _ \<Rightarrow> None)
      else Some tabs)"
  by pat_completeness auto
termination
  by (relation "measure (\<lambda>(chan, nChan, i, u, v, w, freq, cellSize, wCellSize, wSize, gSize,
        support, overSample, tabs). nat (nChan - chan))") auto

declare initCOffset_chan_double.simps [simp del]

function initCOffset_i_double ::
  "int \<Rightarrow> int \<Rightarrow> int \<Rightarrow> real list \<Rightarrow> real list \<Rightarrow> real list \<Rightarrow> real list \<Rightarrow> real \<Rightarrow> real \<Rightarrow>
   int \<Rightarrow> int \<Rightarrow> int \<Rightarrow> int \<Rightarrow> int list \<times> int list \<times> int list \<Rightarrow>
   (int list \<times> int list \<times> int list) option" where
  "initCOffset_i_double i nSamples nChan u v w freq cellSize wCellSize wSize gSize support overSample
     tabs =
     (if i < nSamples then
        (case initCOffset_chan_double 0 nChan i u v w freq cellSize wCellSize wSize gSize support
                overSample tabs of
           None \<Rightarrow> None
         | Some tabs' \<Rightarrow>
             initCOffset_i_double (i + 1) nSamples nChan u v w freq cellSize wCellSize wSize gSize
               support overSample tabs')
      else Some tabs)"
  by pat_completeness auto
termination
  by (relation "measure (\<lambda>(i, nSamples, nChan, u, v, w, freq, cellSize, wCellSize, wSize, gSize,
        support, overSample, tabs). nat (nSamples - i))") auto

declare initCOffset_i_double.simps [simp del]

definition initCOffset_double ::
  "real list \<Rightarrow> real list \<Rightarrow> real list \<Rightarrow> real list \<Rightarrow> real \<Rightarrow> real \<Rightarrow> int \<Rightarrow> int \<Rightarrow> int \<Rightarrow> int \<Rightarrow>
   (int list \<times> int list \<times> int list) option" where
  "initCOffset_double u v w freq cellSize wCellSize wSize gSize support overSample =
     (let nSamples = int (length u);
          nChan = int (length freq);
          n = nSamples * nChan
      in if int32 n then
           initCOffset_i_double 0 nSamples nChan u v w freq cellSize wCellSize wSize gSize support
             overSample (replicate (nat n) 0, replicate (nat n) 0, replicate (nat n) 0)
         else None)"

section \<open>The stencil in closed form\<close>

text \<open>
  The grid cell and the table entry that the kernels address at column \<open>du\<close> and
  row \<open>dv\<close> of the stencil of a sample anchored at \<open>(u, v)\<close>: the kernels start at
  \<^verbatim>\<open>gind = iu[dind] + gSize * iv[dind] - support\<close>, so the stencil is centred on
  \<open>u\<close> in its columns and begins at row \<open>v\<close>.
\<close>

definition grid_index :: "int \<Rightarrow> int \<Rightarrow> int \<Rightarrow> int \<Rightarrow> int \<Rightarrow> int \<Rightarrow> int" where
  "grid_index support gSize u v du dv = (u - support + du) + gSize * (v + dv)"

definition kernel_index :: "int \<Rightarrow> int \<Rightarrow> int \<Rightarrow> int \<Rightarrow> int" where
  "kernel_index support cind du dv = cind + (2 * support + 1) * dv + du"

text \<open>
  All the operations of one sample and of all the samples, in the order of the
  sequential loops, and the thread that the rotating counter assigns to an
  operation.
\<close>

definition stencil_ops ::
  "int \<Rightarrow> int \<Rightarrow> int list \<Rightarrow> int list \<Rightarrow> int list \<Rightarrow> int \<Rightarrow> gop list" where
  "stencil_ops support gSize cOffset iu iv d =
     [Op d dv (grid_index support gSize (iu ! nat d) (iv ! nat d) du dv)
            (kernel_index support (cOffset ! nat d) du dv).
        dv \<leftarrow> [0..2 * support], du \<leftarrow> [0..2 * support]]"

definition all_ops ::
  "nat \<Rightarrow> int \<Rightarrow> int \<Rightarrow> int list \<Rightarrow> int list \<Rightarrow> int list \<Rightarrow> gop list" where
  "all_ops n support gSize cOffset iu iv =
     concat (map (stencil_ops support gSize cOffset iu iv) [0..int n - 1])"

definition owner :: "int \<Rightarrow> int list \<Rightarrow> gop \<Rightarrow> int" where
  "owner nthreads iv x = (iv ! nat (op_dind x) + op_suppv x) mod nthreads"

text \<open>The grid row of the cell that an operation writes.\<close>

definition op_row :: "int \<Rightarrow> gop \<Rightarrow> int" where
  "op_row gSize x = op_gind x div gSize"

text \<open>An operation is in range; the value it adds.\<close>

definition op_ok :: "nat \<Rightarrow> nat \<Rightarrow> gop \<Rightarrow> bool" where
  "op_ok gl cl x = (case x of Op d sv gi ci \<Rightarrow> 0 \<le> gi \<and> gi < int gl \<and> 0 \<le> ci \<and> ci < int cl
                    | Fault \<Rightarrow> False)"

definition op_val :: "'a::{plus,times} list \<Rightarrow> 'a list \<Rightarrow> gop \<Rightarrow> 'a" where
  "op_val data C x = data ! nat (op_dind x) * C ! nat (op_cind x)"

text \<open>
  The precondition of the kernels: the grid is square of side \<open>gSize\<close>, the offset
  tables have an entry for every sample, and every cell and table entry of every
  stencil is inside its vector.
\<close>

definition in_bounds ::
  "nat \<Rightarrow> int \<Rightarrow> nat \<Rightarrow> int list \<Rightarrow> int list \<Rightarrow> int list \<Rightarrow> nat \<Rightarrow> int \<Rightarrow> bool" where
  "in_bounds n support csize cOffset iu iv gsize gSize \<longleftrightarrow>
     0 \<le> support \<and> int gsize = gSize * gSize \<and>
     n \<le> length iu \<and> n \<le> length iv \<and> n \<le> length cOffset \<and>
     (\<forall>d\<in>{0..<n}. support \<le> iu ! d \<and> iu ! d < gSize - support \<and>
            0 \<le> iv ! d \<and> iv ! d + 2 * support < gSize \<and>
            0 \<le> cOffset ! d \<and> cOffset ! d + (2 * support + 1)\<^sup>2 \<le> int csize)"

text \<open>The part of it that row ownership needs: the stencil columns stay inside a grid row.\<close>

definition columns_in_grid ::
  "nat \<Rightarrow> int \<Rightarrow> int list \<Rightarrow> int list \<Rightarrow> int list \<Rightarrow> int \<Rightarrow> bool" where
  "columns_in_grid n support cOffset iu iv gSize \<longleftrightarrow>
     n \<le> length iu \<and> n \<le> length iv \<and> n \<le> length cOffset \<and>
     (\<forall>d\<in>{0..<n}. support \<le> iu ! d \<and> iu ! d < gSize - support \<and> 0 \<le> iv ! d)"

text \<open>
  The values added to grid cell \<open>g\<close>, in the order the sequential kernel adds
  them.
\<close>

definition contributions ::
  "'a::{plus,times} list \<Rightarrow> int \<Rightarrow> 'a list \<Rightarrow> int list \<Rightarrow> int list \<Rightarrow> int list \<Rightarrow> int \<Rightarrow>
   nat \<Rightarrow> 'a list" where
  "contributions data support C cOffset iu iv gSize g =
     [data ! nat d * C ! nat (kernel_index support (cOffset ! nat d) du dv).
        d \<leftarrow> [0..int (length data) - 1], dv \<leftarrow> [0..2 * support], du \<leftarrow> [0..2 * support],
        grid_index support gSize (iu ! nat d) (iv ! nat d) du dv = int g]"

text \<open>
  The products that \<^verbatim>\<open>degridKernel\<close> sums for sample \<open>d\<close>, in the order of its
  loops; the operations of one iteration in closed form; an operation in range
  and its effect on the slot it belongs to.
\<close>

definition stencil_products ::
  "'a::{zero,plus,times} list \<Rightarrow> int \<Rightarrow> int \<Rightarrow> 'a list \<Rightarrow> int list \<Rightarrow> int list \<Rightarrow> int list \<Rightarrow>
   nat \<Rightarrow> 'a list" where
  "stencil_products grid gSize support C cOffset iu iv d =
     [grid ! nat (grid_index support gSize (iu ! d) (iv ! d) du dv) *
      C ! nat (kernel_index support (cOffset ! d) du dv).
        dv \<leftarrow> [0..2 * support], du \<leftarrow> [0..2 * support]]"

definition sample_dops :: "int \<Rightarrow> int \<Rightarrow> int list \<Rightarrow> int list \<Rightarrow> int list \<Rightarrow> int \<Rightarrow> dop list" where
  "sample_dops gSize support cOffset iu iv d =
     Zero d #
     [Acc d (grid_index support gSize (iu ! nat d) (iv ! nat d) du dv)
            (kernel_index support (cOffset ! nat d) du dv).
        dv \<leftarrow> [0..2 * support], du \<leftarrow> [0..2 * support]]"

definition dop_ok :: "nat \<Rightarrow> nat \<Rightarrow> nat \<Rightarrow> dop \<Rightarrow> bool" where
  "dop_ok dl gl cl x =
     (case x of
        Zero d \<Rightarrow> 0 \<le> d \<and> d < int dl
      | Acc d gi ci \<Rightarrow> 0 \<le> d \<and> d < int dl \<and> 0 \<le> gi \<and> gi < int gl \<and> 0 \<le> ci \<and> ci < int cl
      | DFault \<Rightarrow> False)"

fun dop_step :: "'a::{zero,plus,times} list \<Rightarrow> 'a list \<Rightarrow> 'a \<Rightarrow> dop \<Rightarrow> 'a" where
  "dop_step grid C a (Zero dind) = 0"
| "dop_step grid C a (Acc dind gind cind) = a + grid ! nat gind * C ! nat cind"
| "dop_step grid C a DFault = a"

text \<open>
  A function \<open>G\<close> on tables of \<open>n\<close> entries fills the block of the \<open>B\<close> entries
  from index \<open>b\<close> with the values \<open>val\<close> and leaves the other entries alone; and
  the entry that the loops of \<^verbatim>\<open>initC\<close> store at index \<open>p\<close> of the table.
\<close>

definition block_fill :: "('a list \<Rightarrow> 'a list) \<Rightarrow> nat \<Rightarrow> int \<Rightarrow> int \<Rightarrow> (int \<Rightarrow> 'a) \<Rightarrow> bool" where
  "block_fill G n b B val \<longleftrightarrow>
     (\<forall>C. length C = n \<longrightarrow>
        length (G C) = n \<and>
        (\<forall>p. 0 \<le> p \<and> p < int n \<longrightarrow>
           G C ! nat p = (if b \<le> p \<and> p < b + B then val (p - b) else C ! nat p)))"

definition initC_entry_float ::
  "real list \<Rightarrow> real \<Rightarrow> real \<Rightarrow> int \<Rightarrow> int \<Rightarrow> int \<Rightarrow> int \<Rightarrow> complex" where
  "initC_entry_float freq cellSize wCellSize wSize overSample sSize p =
     (let q1 = p mod (overSample * (overSample * (sSize * sSize)));
          q2 = q1 mod (overSample * (sSize * sSize));
          q3 = q2 mod (sSize * sSize)
      in initC_value_float freq cellSize wCellSize wSize overSample (c_div (sSize - 1) 2)
           (p div (overSample * (overSample * (sSize * sSize))))
           (q1 div (overSample * (sSize * sSize))) (q2 div (sSize * sSize))
           (q3 div sSize) (q3 mod sSize))"

subsection \<open>The stencil as the specification words it\<close>

text \<open>
  The specification places row \<open>dv\<close> of the stencil at grid row \<open>v - support + dv\<close>
  and asks for \<open>iu\<close> and \<open>iv\<close> in \<open>[support, gSize - support)\<close>.  These definitions
  follow its words, to be compared with the code.
\<close>

definition spec_grid_index :: "int \<Rightarrow> int \<Rightarrow> int \<Rightarrow> int \<Rightarrow> int \<Rightarrow> int \<Rightarrow> int" where
  "spec_grid_index support gSize u v du dv = (u - support + du) + gSize * (v - support + dv)"

definition spec_in_bounds ::
  "nat \<Rightarrow> int \<Rightarrow> nat \<Rightarrow> int list \<Rightarrow> int list \<Rightarrow> int list \<Rightarrow> nat \<Rightarrow> int \<Rightarrow> bool" where
  "spec_in_bounds n support csize cOffset iu iv gsize gSize \<longleftrightarrow>
     0 \<le> support \<and> int gsize = gSize * gSize \<and>
     n \<le> length iu \<and> n \<le> length iv \<and> n \<le> length cOffset \<and>
     (\<forall>d\<in>{0..<n}. support \<le> iu ! d \<and> iu ! d < gSize - support \<and>
            support \<le> iv ! d \<and> iv ! d < gSize - support \<and>
            cOffset ! d + (2 * support + 1)\<^sup>2 \<le> int csize)"

definition spec_contributions ::
  "'a::{plus,times} list \<Rightarrow> int \<Rightarrow> 'a list \<Rightarrow> int list \<Rightarrow> int list \<Rightarrow> int list \<Rightarrow> int \<Rightarrow>
   nat \<Rightarrow> 'a list" where
  "spec_contributions data support C cOffset iu iv gSize g =
     [data ! nat d * C ! nat (kernel_index support (cOffset ! nat d) du dv).
        d \<leftarrow> [0..int (length data) - 1], dv \<leftarrow> [0..2 * support], du \<leftarrow> [0..2 * support],
        spec_grid_index support gSize (iu ! nat d) (iv ! nat d) du dv = int g]"

definition spec_gridKernel ::
  "'a::{plus,times} list \<Rightarrow> int \<Rightarrow> 'a list \<Rightarrow> int list \<Rightarrow> int list \<Rightarrow> int list \<Rightarrow>
   'a list \<Rightarrow> int \<Rightarrow> 'a list" where
  "spec_gridKernel data support C cOffset iu iv grid gSize =
     map (\<lambda>g. foldl (+) (grid ! g) (spec_contributions data support C cOffset iu iv gSize g))
       [0..<length grid]"

definition spec_op_row :: "int \<Rightarrow> int list \<Rightarrow> gop \<Rightarrow> int" where
  "spec_op_row support iv x = iv ! nat (op_dind x) + op_suppv x - support"

definition spec_stencil_products ::
  "'a::{zero,plus,times} list \<Rightarrow> int \<Rightarrow> int \<Rightarrow> 'a list \<Rightarrow> int list \<Rightarrow> int list \<Rightarrow> int list \<Rightarrow>
   nat \<Rightarrow> 'a list" where
  "spec_stencil_products grid gSize support C cOffset iu iv d =
     [grid ! nat (spec_grid_index support gSize (iu ! d) (iv ! d) du dv) *
      C ! nat (kernel_index support (cOffset ! d) du dv).
        dv \<leftarrow> [0..2 * support], du \<leftarrow> [0..2 * support]]"



section \<open>Properties of the gridding kernels\<close>

subsection \<open>Operation sequences\<close>

lemma exec_ops_append:
  "exec_ops data C (xs @ ys) grid =
     (case exec_ops data C xs grid of None \<Rightarrow> None | Some g \<Rightarrow> exec_ops data C ys g)"
  by (induction xs arbitrary: grid) (auto split: option.splits)

lemma gridKernel_suppu_ops:
  "gridKernel_suppu suppu sSize (data ! nat dind) C cptr grid gptr =
     exec_ops data C (gridKernelOMP_suppu suppu sSize dind suppv gptr cptr) grid"
proof (induction suppu sSize dind suppv gptr cptr arbitrary: grid rule: gridKernelOMP_suppu.induct)
  case (1 suppu sSize dind suppv gptr cptr)
  show ?case
  proof (cases "suppu < sSize")
    case True
    then show ?thesis
      using "1.IH" [OF True]
      by (subst gridKernel_suppu.simps, subst gridKernelOMP_suppu.simps)
         (simp split: option.splits)
  next
    case False
    then show ?thesis
      by (subst gridKernel_suppu.simps, subst gridKernelOMP_suppu.simps) simp
  qed
qed

lemma gridKernel_suppv_ops:
  "gridKernel_suppv suppv sSize gSize (data ! nat dind) C cind grid gind =
     exec_ops data C (gridKernelOMP_suppv 0 1 suppv sSize gSize dind gind cind 0) grid"
proof (induction suppv sSize gSize "data ! nat dind" C cind grid gind rule: gridKernel_suppv.induct)
  case (1 suppv sSize gSize C cind grid gind)
  show ?case
  proof (cases "suppv < sSize")
    case True
    then show ?thesis
      using "1.hyps" [OF True]
      by (subst gridKernel_suppv.simps, subst gridKernelOMP_suppv.simps)
         (simp add: exec_ops_append gridKernel_suppu_ops [of _ _ _ dind _ _ _ _ suppv] split: option.splits)
  next
    case False
    then show ?thesis
      by (subst gridKernel_suppv.simps, subst gridKernelOMP_suppv.simps) simp
  qed
qed

lemma c_rem_1: "c_rem v 1 = 0"
  by (simp add: c_rem_def c_div_def sgn_if)

lemma gridKernel_dind_ops:
  "gridKernel_dind dind data support C cOffset iu iv grid gSize =
     exec_ops data C
       (gridKernelOMP_dind 0 1 dind (int (length data)) support cOffset iu iv gSize) grid"
proof (induction dind data support C cOffset iu iv grid gSize rule: gridKernel_dind.induct)
  case (1 dind data support C cOffset iu iv grid gSize)
  show ?case
  proof (cases "dind < int (length data)")
    case True
    then show ?thesis
      using "1.IH" [OF True]
      by (subst gridKernel_dind.simps, subst gridKernelOMP_dind.simps)
         (simp add: exec_ops_append gridKernel_suppv_ops c_rem_1 split: option.splits)
  next
    case False
    then show ?thesis
      by (subst gridKernel_dind.simps, subst gridKernelOMP_dind.simps) simp
  qed
qed

lemma exec_ops_cells:
  "\<forall>x\<in>set ops. op_ok (length grid) (length C) x \<Longrightarrow>
   \<exists>G. exec_ops data C ops grid = Some G \<and> length G = length grid \<and>
       (\<forall>g<length grid. G ! g =
          foldl (+) (grid ! g) (map (op_val data C) (filter (\<lambda>x. op_gind x = int g) ops)))"
proof (induction ops arbitrary: grid)
  case Nil
  then show ?case by simp
next
  case (Cons x ops)
  from Cons.prems obtain d sv gi ci where x: "x = Op d sv gi ci"
    and b: "0 \<le> gi" "gi < int (length grid)" "0 \<le> ci" "ci < int (length C)"
    by (cases x) (auto simp: op_ok_def)
  let ?grid' = "grid[nat gi := grid ! nat gi + data ! nat d * C ! nat ci]"
  have e: "exec_op data C grid x = Some ?grid'"
    using b by (simp add: x vec_at_def)
  have "\<forall>y\<in>set ops. op_ok (length ?grid') (length C) y"
    using Cons.prems by simp
  from Cons.IH [OF this] obtain G where G: "exec_ops data C ops ?grid' = Some G"
    "length G = length ?grid'"
    "\<forall>g<length ?grid'. G ! g =
        foldl (+) (?grid' ! g) (map (op_val data C) (filter (\<lambda>x. op_gind x = int g) ops))"
    by blast
  have "G ! g = foldl (+) (grid ! g)
          (map (op_val data C) (filter (\<lambda>x. op_gind x = int g) (x # ops)))"
    if g: "g < length grid" for g
  proof (cases "gi = int g")
    case True
    then show ?thesis using G(3) g by (simp add: x op_val_def)
  next
    case False
    then have "nat gi \<noteq> g" using b by auto
    then show ?thesis using G(3) g False by (simp add: x)
  qed
  then show ?case using G(1,2) e by simp
qed

lemma exec_ops_None:
  "\<not> (\<forall>x\<in>set ops. op_ok (length grid) (length C) x) \<Longrightarrow> exec_ops data C ops grid = None"
proof (induction ops arbitrary: grid)
  case Nil
  then show ?case by simp
next
  case (Cons x ops)
  show ?case
  proof (cases "exec_op data C grid x")
    case None
    then show ?thesis by simp
  next
    case (Some grid')
    then have ok: "op_ok (length grid) (length C) x" and l: "length grid' = length grid"
      by (cases x; auto simp: op_ok_def vec_at_def split: if_splits)+
    with Cons.prems have "\<not> (\<forall>y\<in>set ops. op_ok (length grid') (length C) y)" by simp
    from Cons.IH [OF this] Some show ?thesis by simp
  qed
qed

lemma is_schedule_filter:
  "is_schedule sched pend \<Longrightarrow> t < length pend \<Longrightarrow>
   (\<forall>t'<length pend. t' \<noteq> t \<longrightarrow> (\<forall>x\<in>set (pend ! t'). \<not> P x)) \<Longrightarrow>
   filter P (interleave sched pend) = filter P (pend ! t)"
proof (induction sched arbitrary: pend)
  case Nil
  then have "pend ! t = []" using nth_mem [of t pend] by (simp add: list_all_iff)
  then show ?case by simp
next
  case (Cons s sched)
  from Cons.prems(1) have s: "s < length pend" and ne: "pend ! s \<noteq> []"
    and rest: "is_schedule sched (pend[s := tl (pend ! s)])" by auto
  from ne obtain x xs where px: "pend ! s = x # xs" by (cases "pend ! s") auto
  let ?pend' = "pend[s := xs]"
  have rest': "is_schedule sched ?pend'" using rest px by simp
  have t': "t < length ?pend'" using Cons.prems(2) by simp
  have others: "\<forall>t'<length ?pend'. t' \<noteq> t \<longrightarrow> (\<forall>y\<in>set (?pend' ! t'). \<not> P y)"
  proof (intro allI impI)
    fix t' assume a: "t' < length ?pend'" "t' \<noteq> t"
    show "\<forall>y\<in>set (?pend' ! t'). \<not> P y"
    proof (cases "t' = s")
      case True
      then show ?thesis using Cons.prems(3) a s px by auto
    next
      case False
      then show ?thesis using Cons.prems(3) a by auto
    qed
  qed
  have IH: "filter P (interleave sched ?pend') = filter P (?pend' ! t)"
    by (rule Cons.IH [OF rest' t' others])
  show ?case
  proof (cases "s = t")
    case True
    then show ?thesis using IH s px by simp
  next
    case False
    then have "\<not> P x" using Cons.prems(3) s px by auto
    then show ?thesis using IH s px False by simp
  qed
qed

lemma interleave_set:
  "x \<in> set (interleave sched pend) \<Longrightarrow> \<exists>t<length pend. x \<in> set (pend ! t)"
proof (induction sched arbitrary: pend)
  case Nil
  then show ?case by simp
next
  case (Cons s sched)
  show ?case
  proof (cases "s < length pend")
    case False
    then show ?thesis using Cons by simp
  next
    case s: True
    show ?thesis
    proof (cases "pend ! s")
      case Nil
      then show ?thesis using Cons s by simp
    next
      case (Cons y ys)
      with Cons.prems s have "x = y \<or> x \<in> set (interleave sched (pend[s := ys]))" by simp
      then show ?thesis
      proof
        assume "x = y"
        then show ?thesis using s Cons by auto
      next
        assume "x \<in> set (interleave sched (pend[s := ys]))"
        from Cons.IH [OF this] obtain t where t: "t < length pend" "x \<in> set ((pend[s := ys]) ! t)"
          by auto
        show ?thesis
        proof (cases "t = s")
          case True
          then have "x \<in> set (pend ! s)" using t s Cons by simp
          then show ?thesis using s by blast
        next
          case False
          then show ?thesis using t by auto
        qed
      qed
    qed
  qed
qed

lemma is_schedule_complete:
  "is_schedule sched pend \<Longrightarrow> t < length pend \<Longrightarrow> x \<in> set (pend ! t) \<Longrightarrow>
   x \<in> set (interleave sched pend)"
proof (induction sched arbitrary: pend)
  case Nil
  then have "pend ! t = []" using nth_mem [of t pend] by (simp add: list_all_iff)
  with Nil show ?case by simp
next
  case (Cons s sched)
  from Cons.prems(1) have s: "s < length pend" and ne: "pend ! s \<noteq> []"
    and rest: "is_schedule sched (pend[s := tl (pend ! s)])" by auto
  from ne obtain y ys where py: "pend ! s = y # ys" by (cases "pend ! s") auto
  have rest': "is_schedule sched (pend[s := ys])" using rest py by simp
  have t': "t < length (pend[s := ys])" using Cons.prems(2) by simp
  show ?case
  proof (cases "x = y \<and> t = s")
    case True
    then show ?thesis using s py by simp
  next
    case False
    then have "x \<in> set ((pend[s := ys]) ! t)"
      using Cons.prems(2,3) py s by (cases "t = s") auto
    from Cons.IH [OF rest' t' this] show ?thesis using s py by simp
  qed
qed

subsection \<open>The loops in closed form\<close>

lemma gridKernelOMP_suppu_closed:
  "gridKernelOMP_suppu suppu sSize d sv gptr cptr =
     map (\<lambda>k. Op d sv (gptr + (k - suppu)) (cptr + (k - suppu))) [suppu..sSize - 1]"
proof (induction suppu sSize d sv gptr cptr rule: gridKernelOMP_suppu.induct)
  case (1 suppu sSize dind suppv gptr cptr)
  show ?case
  proof (cases "suppu < sSize")
    case True
    then have "[suppu..sSize - 1] = suppu # [suppu + 1..sSize - 1]"
      by (simp add: upto_rec1)
    then show ?thesis
      using "1.IH" [OF True]
      by (subst gridKernelOMP_suppu.simps) (simp add: True algebra_simps)
  next
    case False
    then show ?thesis
      by (subst gridKernelOMP_suppu.simps) simp
  qed
qed

lemma rotate_row:
  assumes "0 \<le> row" "row < T" "row = x mod (T::int)"
  shows "(if row + 1 \<ge> T then 0 else row + 1) = (x + 1) mod T"
proof -
  have e: "(x + 1) mod T = (row + 1) mod T"
    using assms(3) by (simp add: mod_add_left_eq)
  show ?thesis
  proof (cases "row + 1 \<ge> T")
    case True
    then have "row + 1 = T" using assms by simp
    then show ?thesis using e by simp
  next
    case False
    then show ?thesis using e assms by simp
  qed
qed

lemma gridKernelOMP_suppv_closed:
  "0 \<le> tid \<Longrightarrow> tid < T \<Longrightarrow> row = (v + suppv) mod T \<Longrightarrow>
   gridKernelOMP_suppv tid T suppv sSize gSize d gind cind row =
     concat (map (\<lambda>j. if (v + j) mod T = tid
                       then map (\<lambda>k. Op d j (gind + gSize * (j - suppv) + k)
                                          (cind + sSize * (j - suppv) + k)) [0..sSize - 1]
                       else []) [suppv..sSize - 1])"
proof (induction tid T suppv sSize gSize d gind cind row
       rule: gridKernelOMP_suppv.induct)
  case (1 tid nthreads suppv sSize gSize dind gind cind row)
  show ?case
  proof (cases "suppv < sSize")
    case True
    have T: "0 < nthreads" using "1.prems" by simp
    have r: "0 \<le> row" "row < nthreads" using "1.prems"(3) T by simp_all
    have row': "(if row + 1 \<ge> nthreads then 0 else row + 1) = (v + (suppv + 1)) mod nthreads"
      using rotate_row [OF r "1.prems"(3)] by (simp add: add.assoc)
    have u: "[suppv..sSize - 1] = suppv # [suppv + 1..sSize - 1]"
      using True by (simp add: upto_rec1)
    have IH: "gridKernelOMP_suppv tid nthreads (suppv + 1) sSize gSize dind (gind + gSize)
        (cind + sSize) (if row + 1 \<ge> nthreads then 0 else row + 1) =
       concat (map (\<lambda>j. if (v + j) mod nthreads = tid
                       then map (\<lambda>k. Op dind j (gind + gSize + gSize * (j - (suppv + 1)) + k)
                                          (cind + sSize + sSize * (j - (suppv + 1)) + k)) [0..sSize - 1]
                       else []) [suppv + 1..sSize - 1])"
      by (rule "1.IH" [OF True "1.prems"(1,2) row'])
    have a: "gind + gSize + gSize * (j - (suppv + 1)) = gind + gSize * (j - suppv)" for j
      by (simp add: algebra_simps)
    have b: "cind + sSize + sSize * (j - (suppv + 1)) = cind + sSize * (j - suppv)" for j
      by (simp add: algebra_simps)
    have step: "gridKernelOMP_suppv tid nthreads suppv sSize gSize dind gind cind row =
        (if row = tid then gridKernelOMP_suppu 0 sSize dind suppv gind cind else []) @
        gridKernelOMP_suppv tid nthreads (suppv + 1) sSize gSize dind (gind + gSize)
          (cind + sSize) (if row + 1 \<ge> nthreads then 0 else row + 1)"
      by (subst gridKernelOMP_suppv.simps) (simp only: True if_True)
    have hd: "(if row = tid then gridKernelOMP_suppu 0 sSize dind suppv gind cind else []) =
        (if (v + suppv) mod nthreads = tid
         then map (\<lambda>k. Op dind suppv (gind + gSize * (suppv - suppv) + k)
                                          (cind + sSize * (suppv - suppv) + k)) [0..sSize - 1]
         else [])"
      using "1.prems"(3) by (simp add: gridKernelOMP_suppu_closed)
    show ?thesis
      unfolding step IH hd a b u by simp
  next
    case False
    then show ?thesis
      by (subst gridKernelOMP_suppv.simps) simp
  qed
qed

lemma c_rem_mod: "0 \<le> a \<Longrightarrow> 0 < b \<Longrightarrow> c_rem a b = a mod b"
  by (cases "a = 0") (simp_all add: c_rem_def c_div_def sgn_if minus_mult_div_eq_mod)

lemma map_filter_const: "map f (filter (\<lambda>x. Q) xs) = (if Q then map f xs else [])"
  by simp

lemma stencil_ops_thread:
  assumes "0 \<le> tid" "tid < T" "0 \<le> iv ! nat d"
  shows "gridKernelOMP_suppv tid T 0 (2 * support + 1) gSize d
           (iu ! nat d + gSize * iv ! nat d - support) (cOffset ! nat d) (c_rem (iv ! nat d) T) =
         filter (\<lambda>x. owner T iv x = tid) (stencil_ops support gSize cOffset iu iv d)"
proof -
  have T: "0 < T" using assms by simp
  have r: "c_rem (iv ! nat d) T = (iv ! nat d + 0) mod T"
    using c_rem_mod [OF assms(3) T] by simp
  have g: "iu ! nat d + gSize * iv ! nat d - support + gSize * (j - 0) + k =
           grid_index support gSize (iu ! nat d) (iv ! nat d) k j" for j k
    by (simp add: grid_index_def algebra_simps)
  have c: "cOffset ! nat d + (2 * support + 1) * (j - 0) + k =
           kernel_index support (cOffset ! nat d) k j" for j k
    by (simp add: kernel_index_def)
  have s: "2 * support + 1 - 1 = 2 * support" by simp
  show ?thesis
    unfolding gridKernelOMP_suppv_closed [OF assms(1,2) r] g c stencil_ops_def s
    by (simp add: filter_concat comp_def filter_map owner_def map_filter_const)
qed

lemma gridKernelOMP_dind_closed:
  "0 \<le> tid \<Longrightarrow> tid < T \<Longrightarrow>
   n \<le> int (length iu) \<Longrightarrow> n \<le> int (length iv) \<Longrightarrow> n \<le> int (length cOffset) \<Longrightarrow>
   \<forall>d. 0 \<le> d \<and> d < n \<longrightarrow> 0 \<le> iv ! nat d \<Longrightarrow> 0 \<le> dind \<Longrightarrow>
         gridKernelOMP_dind tid T dind n support cOffset iu iv gSize =
         concat (map (\<lambda>d. filter (\<lambda>x. owner T iv x = tid)
                            (stencil_ops support gSize cOffset iu iv d)) [dind..n - 1])"
proof (induction tid T dind n support cOffset iu iv gSize rule: gridKernelOMP_dind.induct)
  case (1 tid nthreads dind n support cOffset iu iv gSize)
  show ?case
  proof (cases "dind < n")
    case True
    have u: "[dind..n - 1] = dind # [dind + 1..n - 1]"
      using True by (simp add: upto_rec1)
    have rd: "vec_at iu dind = Some (iu ! nat dind)" "vec_at iv dind = Some (iv ! nat dind)"
      "vec_at cOffset dind = Some (cOffset ! nat dind)"
      using True "1.prems" by (simp_all add: vec_at_def)
    have v: "0 \<le> iv ! nat dind" using True "1.prems" by simp
    have IH: "gridKernelOMP_dind tid nthreads (dind + 1) n support cOffset iu iv gSize =
         concat (map (\<lambda>d. filter (\<lambda>x. owner nthreads iv x = tid)
                            (stencil_ops support gSize cOffset iu iv d)) [dind + 1..n - 1])"
      using "1.IH" [OF True refl rd(1) refl rd(2) rd(3)] "1.prems" by simp
    show ?thesis
      by (subst gridKernelOMP_dind.simps)
         (simp add: True rd IH u stencil_ops_thread [OF "1.prems"(1,2) v])
  next
    case False
    then show ?thesis
      by (subst gridKernelOMP_dind.simps) simp
  qed
qed

lemma gridKernelOMP_thread_filter:
  assumes "0 \<le> tid" "tid < T"
    and "n \<le> length iu" "n \<le> length iv" "n \<le> length cOffset"
    and "\<forall>d<n. 0 \<le> iv ! d"
  shows "gridKernelOMP_thread tid T n support cOffset iu iv gSize =
         filter (\<lambda>x. owner T iv x = tid) (all_ops n support gSize cOffset iu iv)"
proof -
  have "\<forall>d. 0 \<le> d \<and> d < int n \<longrightarrow> 0 \<le> iv ! nat d"
    using assms(6) by (metis nat_less_iff)
  then show ?thesis
    unfolding gridKernelOMP_thread_def all_ops_def
    using gridKernelOMP_dind_closed [of tid T "int n" iu iv cOffset 0 support gSize] assms
    by (simp add: filter_concat comp_def)
qed

lemma gridKernel_all_ops:
  assumes "length data \<le> length iu" "length data \<le> length iv" "length data \<le> length cOffset"
    and "\<forall>d<length data. 0 \<le> iv ! d"
  shows "gridKernel data support C cOffset iu iv grid gSize =
         exec_ops data C (all_ops (length data) support gSize cOffset iu iv) grid"
proof -
  have "gridKernelOMP_thread 0 1 (length data) support cOffset iu iv gSize =
        filter (\<lambda>x. owner 1 iv x = 0) (all_ops (length data) support gSize cOffset iu iv)"
    using assms by (intro gridKernelOMP_thread_filter) simp_all
  then show ?thesis
    by (simp add: gridKernel_def gridKernel_dind_ops gridKernelOMP_thread_def owner_def)
qed

lemma in_bounds_columns:
  "in_bounds n support csize cOffset iu iv gsize gSize \<Longrightarrow>
   columns_in_grid n support cOffset iu iv gSize"
  by (simp add: in_bounds_def columns_in_grid_def)

lemma all_ops_iff:
  "x \<in> set (all_ops n support gSize cOffset iu iv) \<longleftrightarrow>
   (\<exists>d dv du. 0 \<le> d \<and> d < int n \<and> 0 \<le> dv \<and> dv \<le> 2 * support \<and> 0 \<le> du \<and> du \<le> 2 * support \<and>
      x = Op d dv (grid_index support gSize (iu ! nat d) (iv ! nat d) du dv)
                  (kernel_index support (cOffset ! nat d) du dv))"
  apply (auto simp: all_ops_def stencil_ops_def)
   apply blast
  apply force
  done

lemma grid_index_row:
  assumes "support \<le> u" "u < gSize - support" "0 \<le> du" "du \<le> 2 * support"
  shows "grid_index support gSize u v du dv div gSize = v + dv"
proof -
  have c: "0 \<le> u - support + du" "u - support + du < gSize" using assms by simp_all
  then have "gSize \<noteq> 0" by auto
  then have "(u - support + du + gSize * (v + dv)) div gSize = v + dv + (u - support + du) div gSize"
    by simp
  then show ?thesis using c by (simp add: grid_index_def div_pos_pos_trivial)
qed

lemma all_ops_owner:
  assumes "columns_in_grid n support cOffset iu iv gSize"
    and "x \<in> set (all_ops n support gSize cOffset iu iv)"
  shows "owner T iv x = (op_gind x div gSize) mod T"
proof -
  from assms(2) obtain d dv du where d: "0 \<le> d" "d < int n" "0 \<le> dv" "dv \<le> 2 * support"
    "0 \<le> du" "du \<le> 2 * support"
    and x: "x = Op d dv (grid_index support gSize (iu ! nat d) (iv ! nat d) du dv)
                  (kernel_index support (cOffset ! nat d) du dv)"
    unfolding all_ops_iff by blast
  have "nat d < n" using d by simp
  then have "support \<le> iu ! nat d" "iu ! nat d < gSize - support"
    using assms(1) by (simp_all add: columns_in_grid_def)
  from grid_index_row [OF this d(5,6)] show ?thesis
    by (simp add: x owner_def)
qed

lemma all_ops_ok:
  assumes "in_bounds n support csize cOffset iu iv gsize gSize"
    and "x \<in> set (all_ops n support gSize cOffset iu iv)"
  shows "op_ok gsize csize x"
proof -
  from assms(2) obtain d dv du where d: "0 \<le> d" "d < int n" "0 \<le> dv" "dv \<le> 2 * support"
    "0 \<le> du" "du \<le> 2 * support"
    and x: "x = Op d dv (grid_index support gSize (iu ! nat d) (iv ! nat d) du dv)
                  (kernel_index support (cOffset ! nat d) du dv)"
    unfolding all_ops_iff by blast
  have "nat d < n" using d by simp
  then have b: "support \<le> iu ! nat d" "iu ! nat d < gSize - support"
    "0 \<le> iv ! nat d" "iv ! nat d + 2 * support < gSize"
    "0 \<le> cOffset ! nat d" "cOffset ! nat d + (2 * support + 1)\<^sup>2 \<le> int csize"
    and gs: "int gsize = gSize * gSize"
    using assms(1) by (simp_all add: in_bounds_def)
  let ?col = "iu ! nat d - support + du" and ?row = "iv ! nat d + dv"
  have col: "0 \<le> ?col" "?col \<le> gSize - 1" using b d by simp_all
  have row: "0 \<le> ?row" "?row \<le> gSize - 1" using b d by simp_all
  have g0: "0 \<le> gSize" using col by simp
  have "gSize * ?row \<le> gSize * (gSize - 1)"
    using row g0 by (intro mult_left_mono) simp_all
  then have hi: "?col + gSize * ?row < gSize * gSize"
    using col by (simp add: algebra_simps)
  have "0 \<le> gSize * ?row" using g0 row by simp
  then have lo: "0 \<le> ?col + gSize * ?row" using col by simp
  have "(2 * support + 1) * dv \<le> (2 * support + 1) * (2 * support)"
    using d by (intro mult_left_mono) simp_all
  then have chi: "cOffset ! nat d + (2 * support + 1) * dv + du < int csize"
    using b(6) d by (simp add: power2_eq_square algebra_simps)
  have "0 \<le> (2 * support + 1) * dv" using d by simp
  then have clo: "0 \<le> cOffset ! nat d + (2 * support + 1) * dv + du" using b d by simp
  show ?thesis
    using lo hi clo chi gs by (simp add: x op_ok_def grid_index_def kernel_index_def)
qed

lemma map_filter_concat: "map f (filter P xs) = concat (map (\<lambda>x. if P x then [f x] else []) xs)"
  by (induction xs) simp_all

lemma contributions_all_ops:
  "map (op_val data C) (filter (\<lambda>x. op_gind x = int g)
       (all_ops (length data) support gSize cOffset iu iv)) =
   contributions data support C cOffset iu iv gSize g"
  unfolding all_ops_def stencil_ops_def contributions_def
  by (simp add: filter_concat map_concat comp_def filter_map map_filter_concat op_val_def
        if_distrib [of "map (op_val data C)"] cong: if_cong)

lemma gridKernel_cells:
  assumes "in_bounds (length data) support (length C) cOffset iu iv (length grid) gSize"
  shows "\<exists>G. gridKernel data support C cOffset iu iv grid gSize = Some G \<and>
             length G = length grid \<and>
             (\<forall>g<length grid. G ! g =
                foldl (+) (grid ! g) (contributions data support C cOffset iu iv gSize g))"
proof -
  have l: "length data \<le> length iu" "length data \<le> length iv" "length data \<le> length cOffset"
    "\<forall>d<length data. 0 \<le> iv ! d"
    using assms by (simp_all add: in_bounds_def)
  have ok: "\<forall>x\<in>set (all_ops (length data) support gSize cOffset iu iv).
              op_ok (length grid) (length C) x"
    using all_ops_ok [OF assms] by blast
  show ?thesis
    using exec_ops_cells [OF ok, of data]
    by (simp add: gridKernel_all_ops [OF l] contributions_all_ops)
qed

lemma contributions_Nil:
  assumes "\<forall>d dv du. 0 \<le> d \<and> d < int (length data) \<and> 0 \<le> dv \<and> dv \<le> 2 * support \<and>
             0 \<le> du \<and> du \<le> 2 * support \<longrightarrow>
             grid_index support gSize (iu ! nat d) (iv ! nat d) du dv \<noteq> int g"
  shows "contributions data support C cOffset iu iv gSize g = []"
  using assms by (auto simp: contributions_def)

lemma thread_set:
  assumes c: "columns_in_grid n support cOffset iu iv gSize" and t: "0 \<le> tid" "tid < T"
  shows "set (gridKernelOMP_thread tid T n support cOffset iu iv gSize) =
         {x \<in> set (all_ops n support gSize cOffset iu iv). owner T iv x = tid}"
proof -
  have "gridKernelOMP_thread tid T n support cOffset iu iv gSize =
         filter (\<lambda>x. owner T iv x = tid) (all_ops n support gSize cOffset iu iv)"
    using c t by (intro gridKernelOMP_thread_filter) (simp_all add: columns_in_grid_def)
  then show ?thesis by simp
qed

lemma threads_nth:
  "t < nat T \<Longrightarrow> gridKernelOMP_threads T n support cOffset iu iv gSize ! t =
     gridKernelOMP_thread (int t) T n support cOffset iu iv gSize"
  by (simp add: gridKernelOMP_threads_def)

lemma threads_length: "length (gridKernelOMP_threads T n support cOffset iu iv gSize) = nat T"
  by (simp add: gridKernelOMP_threads_def)

lemma gridKernelOMP_eq_gridKernel:
  assumes c: "columns_in_grid (length data) support cOffset iu iv gSize"
    and T: "1 \<le> T"
    and s: "is_schedule sched (gridKernelOMP_threads T (length data) support cOffset iu iv gSize)"
  shows "gridKernelOMP sched T data support C cOffset iu iv grid gSize =
         gridKernel data support C cOffset iu iv grid gSize"
proof -
  let ?n = "length data"
  let ?all = "all_ops ?n support gSize cOffset iu iv"
  let ?pools = "gridKernelOMP_threads T ?n support cOffset iu iv gSize"
  let ?run = "interleave sched ?pools"
  have l: "length data \<le> length iu" "length data \<le> length iv" "length data \<le> length cOffset"
    "\<forall>d<length data. 0 \<le> iv ! d"
    using c by (simp_all add: columns_in_grid_def)
  have pool: "?pools ! t = filter (\<lambda>x. owner T iv x = int t) ?all" if "t < nat T" for t
    using that l
    by (simp add: threads_nth, intro gridKernelOMP_thread_filter) simp_all
  have sub: "x \<in> set ?all" if "x \<in> set ?run" for x
  proof -
    from interleave_set [OF that] obtain t where "t < nat T" "x \<in> set (?pools ! t)"
      by (auto simp: threads_length)
    then show ?thesis by (simp add: pool)
  qed
  have sup: "x \<in> set ?run" if x: "x \<in> set ?all" for x
  proof -
    let ?t = "nat (owner T iv x)"
    have o: "0 \<le> owner T iv x" "owner T iv x < T" using T by (simp_all add: owner_def)
    then have t: "?t < length ?pools" by (simp add: threads_length)
    have "x \<in> set (?pools ! ?t)" using o x by (simp add: pool)
    from is_schedule_complete [OF s t this] show ?thesis .
  qed
  show ?thesis
  proof (cases "\<forall>x\<in>set ?all. op_ok (length grid) (length C) x")
    case False
    then have "\<not> (\<forall>x\<in>set ?run. op_ok (length grid) (length C) x)" using sup by blast
    from exec_ops_None [OF this] exec_ops_None [OF False] show ?thesis
      by (simp add: gridKernel_all_ops [OF l] gridKernelOMP_def)
  next
    case okall: True
    then have okrun: "\<forall>x\<in>set ?run. op_ok (length grid) (length C) x"
      using sub by blast
    from exec_ops_cells [OF okall, of data] obtain G where
      G: "exec_ops data C ?all grid = Some G" "length G = length grid"
         "\<forall>g<length grid. G ! g =
            foldl (+) (grid ! g) (map (op_val data C) (filter (\<lambda>x. op_gind x = int g) ?all))"
      by blast
    from exec_ops_cells [OF okrun, of data] obtain G' where
      G': "exec_ops data C ?run grid = Some G'" "length G' = length grid"
         "\<forall>g<length grid. G' ! g =
            foldl (+) (grid ! g) (map (op_val data C) (filter (\<lambda>x. op_gind x = int g) ?run))"
      by blast
    have f: "filter (\<lambda>x. op_gind x = int g) ?run = filter (\<lambda>x. op_gind x = int g) ?all" for g
    proof -
      let ?o = "(int g div gSize) mod T"
      have o: "0 \<le> ?o" "?o < T" using T by simp_all
      let ?t = "nat ?o"
      have t: "?t < length ?pools" using o by (simp add: threads_length)
      have own: "owner T iv x = ?o" if "x \<in> set ?all" "op_gind x = int g" for x
        using all_ops_owner [OF c that(1), of T] that(2) by simp
      have others: "\<forall>t'<length ?pools. t' \<noteq> ?t \<longrightarrow>
                      (\<forall>x\<in>set (?pools ! t'). \<not> op_gind x = int g)"
      proof (intro allI impI ballI)
        fix t' x assume t': "t' < length ?pools" "t' \<noteq> ?t" and x: "x \<in> set (?pools ! t')"
        from t' have "t' < nat T" by (simp add: threads_length)
        with x have "x \<in> set ?all" "owner T iv x = int t'" by (simp_all add: pool)
        with own [of x] t'(2) o show "\<not> op_gind x = int g" by auto
      qed
      have "filter (\<lambda>x. op_gind x = int g) ?run = filter (\<lambda>x. op_gind x = int g) (?pools ! ?t)"
        by (rule is_schedule_filter [OF s t others])
      also have "\<dots> = filter (\<lambda>x. op_gind x = int g \<and> owner T iv x = int ?t) ?all"
        using t by (simp add: pool threads_length conj_commute)
      also have "\<dots> = filter (\<lambda>x. op_gind x = int g) ?all"
        using own o by (intro filter_cong) auto
      finally show ?thesis .
    qed
    have "G' = G"
      using G(2,3) G'(2,3) by (intro nth_equalityI) (simp_all add: f)
    then show ?thesis
      using G(1) G'(1) by (simp add: gridKernel_all_ops [OF l] gridKernelOMP_def)
  qed
qed

subsection \<open>Sequential gridding\<close>

text \<open>
  C1, as amended.  Under the precondition \<open>in_bounds\<close> (every \<open>iu[d]\<close> in
  \<open>[support, gSize - support)\<close>, every \<open>iv[d]\<close> in \<open>[0, gSize - 2 * support)\<close>, every
  \<open>cOffset[d]\<close> in \<open>[0, C.size() - (2 * support + 1)\<^sup>2]\<close>), \<^verbatim>\<open>gridKernel\<close> returns a grid
  of the same size in which every cell \<open>g\<close> is the initial cell with the values
  \<open>data[d] * C[cOffset[d] + (2 * support + 1) * dv + du]\<close> added, in the order of the
  loops, for exactly the \<open>d\<close>, \<open>dv\<close>, \<open>du\<close> (\<open>0 \<le> du, dv \<le> 2 * support\<close>) with
  \<open>(iu[d] - support + du) + gSize * (iv[d] + dv) = g\<close>; a cell that no stencil position
  hits is added nothing and keeps its value.
\<close>

theorem gridKernel_accumulates:
  assumes "in_bounds (length data) support (length C) cOffset iu iv (length grid) gSize"
  shows "\<exists>G. gridKernel data support C cOffset iu iv grid gSize = Some G \<and>
             length G = length grid \<and>
             (\<forall>g<length grid. G ! g =
                foldl (+) (grid ! g) (contributions data support C cOffset iu iv gSize g)) \<and>
             (\<forall>g<length grid.
                (\<forall>d dv du. 0 \<le> d \<and> d < int (length data) \<and> 0 \<le> dv \<and> dv \<le> 2 * support \<and>
                   0 \<le> du \<and> du \<le> 2 * support \<longrightarrow>
                   grid_index support gSize (iu ! nat d) (iv ! nat d) du dv \<noteq> int g) \<longrightarrow>
                G ! g = grid ! g)"
proof -
  from gridKernel_cells [OF assms] obtain G where
    G: "gridKernel data support C cOffset iu iv grid gSize = Some G" "length G = length grid"
       "\<forall>g<length grid. G ! g =
          foldl (+) (grid ! g) (contributions data support C cOffset iu iv gSize g)"
    by blast
  have "G ! g = grid ! g"
    if "g < length grid"
      "\<forall>d dv du. 0 \<le> d \<and> d < int (length data) \<and> 0 \<le> dv \<and> dv \<le> 2 * support \<and>
                   0 \<le> du \<and> du \<le> 2 * support \<longrightarrow>
                   grid_index support gSize (iu ! nat d) (iv ! nat d) du dv \<noteq> int g" for g
    using G(3) that(1) contributions_Nil [OF that(2)] by simp
  with G show ?thesis by blast
qed

text \<open>C1, witness: one sample on a 4 by 4 grid with \<open>support = 1\<close>.\<close>

theorem gridKernel_accumulates_witness:
  "in_bounds 1 1 9 [0] [1] [1] 16 4 \<and>
   (\<exists>G. gridKernel [1::int] 1 [1, 2, 3, 4, 5, 6, 7, 8, 9] [0] [1] [1] (replicate 16 0) 4 = Some G \<and>
        length G = 16 \<and>
        G ! 5 = foldl (+) (replicate 16 0 ! 5)
           (contributions [1] 1 [1, 2, 3, 4, 5, 6, 7, 8, 9] [0] [1] [1] 4 5) \<and>
        G ! 5 = 2)"
proof -
  have h: "in_bounds (length [1::int]) 1 (length [1::int, 2, 3, 4, 5, 6, 7, 8, 9]) [0] [1] [1]
             (length (replicate 16 (0::int))) 4"
    by (simp add: in_bounds_def)
  have h0: "in_bounds 1 1 9 [0] [1] [1] 16 4"
    by (simp add: in_bounds_def)
  have c: "contributions [1::int] 1 [1, 2, 3, 4, 5, 6, 7, 8, 9] [0] [1] [1] 4 5 = [2]"
    by code_simp
  from gridKernel_accumulates [OF h]
  have "\<exists>G. gridKernel [1::int] 1 [1, 2, 3, 4, 5, 6, 7, 8, 9] [0] [1] [1] (replicate 16 0) 4 = Some G \<and>
        length G = 16 \<and>
        G ! 5 = foldl (+) (replicate 16 0 ! 5)
           (contributions [1] 1 [1, 2, 3, 4, 5, 6, 7, 8, 9] [0] [1] [1] 4 5) \<and>
        G ! 5 = 2"
    by (auto simp: c)
  with h0 show ?thesis by blast
qed

text \<open>
  C1, counterexample to the claim as stated.  With \<open>iu = iv = 1\<close>, \<open>support = 1\<close>
  and \<open>gSize = 4\<close> the precondition of the claim holds; the code adds the table to
  the grid rows 1 to 3, the claim to the rows 0 to 2.  With \<open>iv = 2\<close> the claimed
  precondition still holds and the code leaves the grid.
\<close>

theorem gridKernel_spec_index_counterexample:
  "spec_in_bounds 1 1 9 [0] [1] [1] 16 4 \<and>
   gridKernel [1::int] 1 [1, 2, 3, 4, 5, 6, 7, 8, 9] [0] [1] [1] (replicate 16 0) 4
     = Some [0, 0, 0, 0, 1, 2, 3, 0, 4, 5, 6, 0, 7, 8, 9, 0] \<and>
   spec_gridKernel [1::int] 1 [1, 2, 3, 4, 5, 6, 7, 8, 9] [0] [1] [1] (replicate 16 0) 4
     = [1, 2, 3, 0, 4, 5, 6, 0, 7, 8, 9, 0, 0, 0, 0, 0] \<and>
   spec_in_bounds 1 1 9 [0] [1] [2] 16 4 \<and>
   gridKernel [1::int] 1 [1, 2, 3, 4, 5, 6, 7, 8, 9] [0] [1] [2] (replicate 16 0) 4 = None"
  by code_simp

subsection \<open>Parallel gridding\<close>

text \<open>
  C3, as amended.  When the stencil columns stay inside a grid row
  (\<open>columns_in_grid\<close>), thread \<open>tid\<close> of \<open>T\<close> issues exactly the operations of
  the stencil rows \<open>dv\<close> of the samples \<open>d\<close> with \<open>(iv[d] + dv) mod T = tid\<close>;
  each of them writes a cell of the grid row \<open>iv[d] + dv\<close>, whose number is
  \<open>tid\<close> modulo \<open>T\<close>; and a cell written by thread \<open>tid\<close> is written by no
  other thread.
\<close>

theorem gridKernelOMP_row_ownership:
  assumes c: "columns_in_grid n support cOffset iu iv gSize"
    and t: "0 \<le> tid" "tid < T"
  shows "(\<forall>x. x \<in> set (gridKernelOMP_thread tid T n support cOffset iu iv gSize) \<longleftrightarrow>
            (\<exists>d dv du. 0 \<le> d \<and> d < int n \<and> 0 \<le> dv \<and> dv \<le> 2 * support \<and>
               0 \<le> du \<and> du \<le> 2 * support \<and> (iv ! nat d + dv) mod T = tid \<and>
               x = Op d dv (grid_index support gSize (iu ! nat d) (iv ! nat d) du dv)
                           (kernel_index support (cOffset ! nat d) du dv))) \<and>
         (\<forall>x\<in>set (gridKernelOMP_thread tid T n support cOffset iu iv gSize).
            op_row gSize x = iv ! nat (op_dind x) + op_suppv x \<and>
            op_row gSize x mod T = tid) \<and>
         (\<forall>tid' x x'. 0 \<le> tid' \<and> tid' < T \<and>
            x \<in> set (gridKernelOMP_thread tid T n support cOffset iu iv gSize) \<and>
            x' \<in> set (gridKernelOMP_thread tid' T n support cOffset iu iv gSize) \<and>
            op_gind x = op_gind x' \<longrightarrow> tid' = tid)"
proof (intro conjI allI ballI impI)
  fix x
  show "x \<in> set (gridKernelOMP_thread tid T n support cOffset iu iv gSize) \<longleftrightarrow>
            (\<exists>d dv du. 0 \<le> d \<and> d < int n \<and> 0 \<le> dv \<and> dv \<le> 2 * support \<and>
               0 \<le> du \<and> du \<le> 2 * support \<and> (iv ! nat d + dv) mod T = tid \<and>
               x = Op d dv (grid_index support gSize (iu ! nat d) (iv ! nat d) du dv)
                           (kernel_index support (cOffset ! nat d) du dv))"
  proof
    assume "x \<in> set (gridKernelOMP_thread tid T n support cOffset iu iv gSize)"
    then have a: "x \<in> set (all_ops n support gSize cOffset iu iv)" and o: "owner T iv x = tid"
      unfolding thread_set [OF c t] by simp_all
    from a obtain d dv du where d: "0 \<le> d" "d < int n" "0 \<le> dv" "dv \<le> 2 * support"
      "0 \<le> du" "du \<le> 2 * support"
      and xe: "x = Op d dv (grid_index support gSize (iu ! nat d) (iv ! nat d) du dv)
                  (kernel_index support (cOffset ! nat d) du dv)"
      unfolding all_ops_iff by blast
    have "(iv ! nat d + dv) mod T = tid" using o by (simp add: xe owner_def)
    with d xe show "\<exists>d dv du. 0 \<le> d \<and> d < int n \<and> 0 \<le> dv \<and> dv \<le> 2 * support \<and>
               0 \<le> du \<and> du \<le> 2 * support \<and> (iv ! nat d + dv) mod T = tid \<and>
               x = Op d dv (grid_index support gSize (iu ! nat d) (iv ! nat d) du dv)
                           (kernel_index support (cOffset ! nat d) du dv)"
      by blast
  next
    assume "\<exists>d dv du. 0 \<le> d \<and> d < int n \<and> 0 \<le> dv \<and> dv \<le> 2 * support \<and>
               0 \<le> du \<and> du \<le> 2 * support \<and> (iv ! nat d + dv) mod T = tid \<and>
               x = Op d dv (grid_index support gSize (iu ! nat d) (iv ! nat d) du dv)
                           (kernel_index support (cOffset ! nat d) du dv)"
    then obtain d dv du where d: "0 \<le> d" "d < int n" "0 \<le> dv" "dv \<le> 2 * support"
      "0 \<le> du" "du \<le> 2 * support" and o: "(iv ! nat d + dv) mod T = tid"
      and xe: "x = Op d dv (grid_index support gSize (iu ! nat d) (iv ! nat d) du dv)
                  (kernel_index support (cOffset ! nat d) du dv)"
      by blast
    have "x \<in> set (all_ops n support gSize cOffset iu iv)"
      unfolding all_ops_iff using d xe by blast
    moreover have "owner T iv x = tid" using o by (simp add: xe owner_def)
    ultimately show "x \<in> set (gridKernelOMP_thread tid T n support cOffset iu iv gSize)"
      unfolding thread_set [OF c t] by simp
  qed
next
  fix x assume x: "x \<in> set (gridKernelOMP_thread tid T n support cOffset iu iv gSize)"
  then have a: "x \<in> set (all_ops n support gSize cOffset iu iv)" and o: "owner T iv x = tid"
    unfolding thread_set [OF c t] by simp_all
  from a obtain d dv du where d: "0 \<le> d" "d < int n" "0 \<le> du" "du \<le> 2 * support"
    and xe: "x = Op d dv (grid_index support gSize (iu ! nat d) (iv ! nat d) du dv)
                  (kernel_index support (cOffset ! nat d) du dv)"
    unfolding all_ops_iff by blast
  have "nat d < n" using d by simp
  then have "support \<le> iu ! nat d" "iu ! nat d < gSize - support"
    using c by (simp_all add: columns_in_grid_def)
  from grid_index_row [OF this d(3,4)]
  show r: "op_row gSize x = iv ! nat (op_dind x) + op_suppv x"
    by (simp add: xe op_row_def)
  show "op_row gSize x mod T = tid"
    using o unfolding r by (simp add: owner_def)
next
  fix tid' x x'
  assume h: "0 \<le> tid' \<and> tid' < T \<and>
            x \<in> set (gridKernelOMP_thread tid T n support cOffset iu iv gSize) \<and>
            x' \<in> set (gridKernelOMP_thread tid' T n support cOffset iu iv gSize) \<and>
            op_gind x = op_gind x'"
  then have "x \<in> set (all_ops n support gSize cOffset iu iv)" "owner T iv x = tid"
    "x' \<in> set (all_ops n support gSize cOffset iu iv)" "owner T iv x' = tid'"
    using thread_set [OF c t] thread_set [OF c, of tid' T] by simp_all
  then show "tid' = tid"
    using all_ops_owner [OF c, of x T] all_ops_owner [OF c, of x' T] h by simp
qed

text \<open>C3, witness: two threads, one sample.\<close>

theorem gridKernelOMP_row_ownership_witness:
  "columns_in_grid 1 1 [0] [1] [1] 4 \<and> (0::int) \<le> 1 \<and> (1::int) < 2 \<and>
   Op 0 2 13 7 \<in> set (gridKernelOMP_thread 1 2 1 1 [0] [1] [1] 4) \<and>
   op_row 4 (Op 0 2 13 7) = [1] ! nat (op_dind (Op 0 2 13 7)) + op_suppv (Op 0 2 13 7) \<and>
   op_row 4 (Op 0 2 13 7) mod 2 = 1"
proof -
  have h: "columns_in_grid 1 1 [0] [1] [1] 4"
    by (simp add: columns_in_grid_def)
  have m: "Op 0 2 13 7 \<in> set (gridKernelOMP_thread 1 2 1 1 [0] [1] [1] 4)"
    by code_simp
  from gridKernelOMP_row_ownership [OF h, of 1 2] m
  have "op_row 4 (Op 0 2 13 7) = [1] ! nat (op_dind (Op 0 2 13 7)) + op_suppv (Op 0 2 13 7) \<and>
        op_row 4 (Op 0 2 13 7) mod 2 = 1"
    by fastforce
  moreover have "(0::int) \<le> 1" "(1::int) < 2" by simp_all
  ultimately show ?thesis using h m by blast
qed

text \<open>
  C3, counterexample to the claim as stated: the stencil row 0 of the sample is
  accumulated by thread 1 into the grid row 1, which is \<open>iv[d] + suppv\<close>, and not
  into the row \<open>iv[d] + suppv - support = 0\<close>.
\<close>

theorem gridKernelOMP_spec_row_counterexample:
  "columns_in_grid 1 1 [0] [1] [1] 4 \<and>
   Op 0 0 4 0 \<in> set (gridKernelOMP_thread 1 2 1 1 [0] [1] [1] 4) \<and>
   op_row 4 (Op 0 0 4 0) = 1 \<and>
   spec_op_row 1 [1] (Op 0 0 4 0) = 0"
  by code_simp

text \<open>
  C4.  For every input whose stencil columns stay inside a grid row, every number
  \<open>T \<ge> 1\<close> of threads and every interleaving of the threads, \<^verbatim>\<open>gridKernelOMP\<close> and
  \<^verbatim>\<open>gridKernel\<close> started on the same grid (the zero grid in particular) have the same
  outcome: every cell receives the same values in the same order.  Within the
  bounds both return a grid.  Hence, whenever the two grids exist, the real parts
  of corresponding cells, read by any function \<open>re\<close>, differ by at most
  \<open>1e-5\<close>: they are equal.
\<close>

theorem gridKernelOMP_matches_gridKernel:
  fixes re :: "'a::{plus,times} \<Rightarrow> real"
  assumes "columns_in_grid (length data) support cOffset iu iv gSize"
    and "1 \<le> T"
    and "is_schedule sched (gridKernelOMP_threads T (length data) support cOffset iu iv gSize)"
  shows "gridKernelOMP sched T data support C cOffset iu iv grid gSize =
           gridKernel data support C cOffset iu iv grid gSize \<and>
         (in_bounds (length data) support (length C) cOffset iu iv (length grid) gSize \<longrightarrow>
            (\<exists>G. gridKernel data support C cOffset iu iv grid gSize = Some G \<and>
                 length G = length grid)) \<and>
         (\<forall>G G'. gridKernel data support C cOffset iu iv grid gSize = Some G \<and>
                 gridKernelOMP sched T data support C cOffset iu iv grid gSize = Some G' \<longrightarrow>
                 length G' = length G \<and>
                 (\<forall>i<length G. \<bar>re (G ! i) - re (G' ! i)\<bar> \<le> 1 / 100000))"
proof -
  note e = gridKernelOMP_eq_gridKernel [OF assms]
  have "\<exists>G. gridKernel data support C cOffset iu iv grid gSize = Some G \<and> length G = length grid"
    if "in_bounds (length data) support (length C) cOffset iu iv (length grid) gSize"
    using gridKernel_cells [OF that] by blast
  then show ?thesis using e by auto
qed

text \<open>C4, witness: two threads interleaved on one sample.\<close>

theorem gridKernelOMP_matches_gridKernel_witness:
  "columns_in_grid 1 1 [0] [1] [1] 4 \<and> (1::int) \<le> 2 \<and>
   is_schedule [1, 1, 0, 1, 0, 0, 1, 1, 1] (gridKernelOMP_threads 2 1 1 [0] [1] [1] 4) \<and>
   in_bounds 1 1 9 [0] [1] [1] 16 4 \<and>
   gridKernelOMP [1, 1, 0, 1, 0, 0, 1, 1, 1] 2 [1::int] 1 [1, 2, 3, 4, 5, 6, 7, 8, 9] [0] [1] [1]
       (replicate 16 0) 4 =
     gridKernel [1] 1 [1, 2, 3, 4, 5, 6, 7, 8, 9] [0] [1] [1] (replicate 16 0) 4 \<and>
   gridKernel [1::int] 1 [1, 2, 3, 4, 5, 6, 7, 8, 9] [0] [1] [1] (replicate 16 0) 4 \<noteq> None"
proof -
  have h: "columns_in_grid (length [1::int]) 1 [0] [1] [1] 4"
    by (simp add: columns_in_grid_def)
  have h0: "columns_in_grid 1 1 [0] [1] [1] 4"
    by (simp add: columns_in_grid_def)
  have b: "in_bounds (length [1::int]) 1 (length [1::int, 2, 3, 4, 5, 6, 7, 8, 9]) [0] [1] [1]
             (length (replicate 16 (0::int))) 4"
    by (simp add: in_bounds_def)
  have b0: "in_bounds 1 1 9 [0] [1] [1] 16 4"
    by (simp add: in_bounds_def)
  have s: "is_schedule [1, 1, 0, 1, 0, 0, 1, 1, 1]
             (gridKernelOMP_threads 2 (length [1::int]) 1 [0] [1] [1] 4)"
    by code_simp
  have s0: "is_schedule [1, 1, 0, 1, 0, 0, 1, 1, 1] (gridKernelOMP_threads 2 1 1 [0] [1] [1] 4)"
    by code_simp
  have T: "(1::int) \<le> 2" by simp
  from gridKernelOMP_matches_gridKernel [OF h T s, of "[1, 2, 3, 4, 5, 6, 7, 8, 9]"
      "replicate 16 0" real_of_int] b
  have "gridKernelOMP [1, 1, 0, 1, 0, 0, 1, 1, 1] 2 [1::int] 1 [1, 2, 3, 4, 5, 6, 7, 8, 9] [0] [1] [1]
       (replicate 16 0) 4 =
     gridKernel [1] 1 [1, 2, 3, 4, 5, 6, 7, 8, 9] [0] [1] [1] (replicate 16 0) 4 \<and>
   gridKernel [1::int] 1 [1, 2, 3, 4, 5, 6, 7, 8, 9] [0] [1] [1] (replicate 16 0) 4 \<noteq> None"
    by auto
  with h0 s0 T b0 show ?thesis by blast
qed

section \<open>Properties of the degridding kernels\<close>

lemma exec_dops_append:
  "exec_dops grid C (xs @ ys) data =
     (case exec_dops grid C xs data of None \<Rightarrow> None | Some d \<Rightarrow> exec_dops grid C ys d)"
  by (induction xs arbitrary: data) (auto split: option.splits)

lemma degridKernel_suppu_dops:
  "0 \<le> dind \<Longrightarrow> dind < int (length data) \<Longrightarrow>
   degridKernel_suppu suppu sSize grid gptr C cptr data dind =
     exec_dops grid C (degridKernelOMP_suppu suppu sSize dind gptr cptr) data"
proof (induction suppu sSize grid gptr C cptr data dind rule: degridKernel_suppu.induct)
  case (1 suppu sSize grid gptr C cptr data dind)
  show ?case
  proof (cases "suppu < sSize")
    case True
    show ?thesis
    proof (cases "vec_at grid gptr")
      case None
      then show ?thesis
        using True "1.prems"
        by (subst degridKernel_suppu.simps, subst degridKernelOMP_suppu.simps)
           (simp add: vec_at_def)
    next
      case g: (Some g)
      show ?thesis
      proof (cases "vec_at C cptr")
        case None
        then show ?thesis
          using True "1.prems" g
          by (subst degridKernel_suppu.simps, subst degridKernelOMP_suppu.simps)
             (simp add: vec_at_def)
      next
        case c: (Some c)
        have d: "vec_at data dind = Some (data ! nat dind)"
          using "1.prems" by (simp add: vec_at_def)
        have IH: "degridKernel_suppu (suppu + 1) sSize grid (gptr + 1) C (cptr + 1)
                    (data[nat dind := data ! nat dind + g * c]) dind =
                  exec_dops grid C (degridKernelOMP_suppu (suppu + 1) sSize dind (gptr + 1) (cptr + 1))
                    (data[nat dind := data ! nat dind + g * c])"
          using "1.IH" [OF True refl g c] "1.prems" by simp
        show ?thesis
          using True g c d IH
          by (subst degridKernel_suppu.simps, subst degridKernelOMP_suppu.simps) simp
      qed
    qed
  next
    case False
    then show ?thesis
      by (subst degridKernel_suppu.simps, subst degridKernelOMP_suppu.simps) simp
  qed
qed

lemma degridKernel_suppv_dops:
  "0 \<le> dind \<Longrightarrow> dind < int (length data) \<Longrightarrow>
   degridKernel_suppv suppv sSize gSize grid gind C cind data dind =
     exec_dops grid C (degridKernelOMP_suppv suppv sSize gSize dind gind cind) data"
proof (induction suppv sSize gSize grid gind C cind data dind rule: degridKernel_suppv.induct)
  case (1 suppv sSize gSize grid gind C cind data dind)
  show ?case
  proof (cases "suppv < sSize")
    case True
    have u: "degridKernel_suppu 0 sSize grid gind C cind data dind =
             exec_dops grid C (degridKernelOMP_suppu 0 sSize dind gind cind) data"
      by (rule degridKernel_suppu_dops [OF "1.prems"])
    show ?thesis
    proof (cases "degridKernel_suppu 0 sSize grid gind C cind data dind")
      case None
      then show ?thesis
        using True u
        by (subst degridKernel_suppv.simps, subst degridKernelOMP_suppv.simps)
           (simp add: exec_dops_append)
    next
      case (Some data')
      then have "length data' = length data" by (rule degridKernel_suppu_length)
      then have IH: "degridKernel_suppv (suppv + 1) sSize gSize grid (gind + gSize) C (cind + sSize)
               data' dind =
             exec_dops grid C
               (degridKernelOMP_suppv (suppv + 1) sSize gSize dind (gind + gSize) (cind + sSize)) data'"
        using "1.IH" [OF True Some] "1.prems" by simp
      have e: "exec_dops grid C (degridKernelOMP_suppu 0 sSize dind gind cind) data = Some data'"
        using u Some by simp
      show ?thesis
        by (subst degridKernel_suppv.simps, subst degridKernelOMP_suppv.simps)
           (simp add: True Some e IH exec_dops_append)
    qed
  next
    case False
    then show ?thesis
      by (subst degridKernel_suppv.simps, subst degridKernelOMP_suppv.simps) simp
  qed
qed

lemma degridKernel_sample_dops:
  assumes "0 \<le> dind" "dind < int (length data)"
  shows "degridKernel_sample grid gSize support C cOffset iu iv data dind =
         exec_dops grid C (degridKernelOMP_sample gSize support cOffset iu iv dind) data"
proof -
  have "degridKernel_suppv 0 (2 * support + 1) gSize grid g C c (data[nat dind := 0]) dind =
        exec_dops grid C (degridKernelOMP_suppv 0 (2 * support + 1) gSize dind g c)
          (data[nat dind := 0])" for g c
    using assms by (intro degridKernel_suppv_dops) simp_all
  then show ?thesis
    using assms
    by (simp add: degridKernel_sample_def degridKernelOMP_sample_def split: option.splits)
qed

lemma degridKernel_dind_dops:
  "0 \<le> dind \<Longrightarrow>
   degridKernel_dind dind grid gSize support C cOffset iu iv data =
     exec_dops grid C
       (concat (map (degridKernelOMP_sample gSize support cOffset iu iv)
          [dind..int (length data) - 1])) data"
proof (induction dind grid gSize support C cOffset iu iv data rule: degridKernel_dind.induct)
  case (1 dind grid gSize support C cOffset iu iv data)
  show ?case
  proof (cases "dind < int (length data)")
    case True
    have u: "[dind..int (length data) - 1] = dind # [dind + 1..int (length data) - 1]"
      using True by (simp add: upto_rec1)
    have s: "degridKernel_sample grid gSize support C cOffset iu iv data dind =
         exec_dops grid C (degridKernelOMP_sample gSize support cOffset iu iv dind) data"
      by (rule degridKernel_sample_dops [OF "1.prems" True])
    show ?thesis
    proof (cases "degridKernel_sample grid gSize support C cOffset iu iv data dind")
      case None
      then show ?thesis
        using True s
        by (subst degridKernel_dind.simps) (simp add: u exec_dops_append)
    next
      case (Some data')
      then have l: "length data' = length data" by (rule degridKernel_sample_length)
      have IH: "degridKernel_dind (dind + 1) grid gSize support C cOffset iu iv data' =
          exec_dops grid C
            (concat (map (degridKernelOMP_sample gSize support cOffset iu iv)
               [dind + 1..int (length data) - 1])) data'"
        using "1.IH" [OF True Some] "1.prems" l by simp
      have e: "exec_dops grid C (degridKernelOMP_sample gSize support cOffset iu iv dind) data =
               Some data'"
        using s Some by simp
      show ?thesis
        by (subst degridKernel_dind.simps) (simp add: True Some e IH u exec_dops_append)
    qed
  next
    case False
    then show ?thesis
      by (subst degridKernel_dind.simps) simp
  qed
qed

lemma degridKernelOMP_suppu_closed:
  "degridKernelOMP_suppu suppu sSize d gptr cptr =
     map (\<lambda>k. Acc d (gptr + (k - suppu)) (cptr + (k - suppu))) [suppu..sSize - 1]"
proof (induction suppu sSize d gptr cptr rule: degridKernelOMP_suppu.induct)
  case (1 suppu sSize dind gptr cptr)
  show ?case
  proof (cases "suppu < sSize")
    case True
    then have "[suppu..sSize - 1] = suppu # [suppu + 1..sSize - 1]"
      by (simp add: upto_rec1)
    then show ?thesis
      using "1.IH" [OF True]
      by (subst degridKernelOMP_suppu.simps) (simp add: True algebra_simps)
  next
    case False
    then show ?thesis
      by (subst degridKernelOMP_suppu.simps) simp
  qed
qed

lemma degridKernelOMP_suppv_closed:
  "degridKernelOMP_suppv suppv sSize gSize d gind cind =
     concat (map (\<lambda>j. map (\<lambda>k. Acc d (gind + gSize * (j - suppv) + k)
                                       (cind + sSize * (j - suppv) + k)) [0..sSize - 1])
               [suppv..sSize - 1])"
proof (induction suppv sSize gSize d gind cind rule: degridKernelOMP_suppv.induct)
  case (1 suppv sSize gSize dind gind cind)
  show ?case
  proof (cases "suppv < sSize")
    case True
    have u: "[suppv..sSize - 1] = suppv # [suppv + 1..sSize - 1]"
      using True by (simp add: upto_rec1)
    have a: "gind + gSize + gSize * (j - (suppv + 1)) = gind + gSize * (j - suppv)" for j
      by (simp add: algebra_simps)
    have b: "cind + sSize + sSize * (j - (suppv + 1)) = cind + sSize * (j - suppv)" for j
      by (simp add: algebra_simps)
    have step: "degridKernelOMP_suppv suppv sSize gSize dind gind cind =
        degridKernelOMP_suppu 0 sSize dind gind cind @
        degridKernelOMP_suppv (suppv + 1) sSize gSize dind (gind + gSize) (cind + sSize)"
      by (subst degridKernelOMP_suppv.simps) (simp only: True if_True)
    show ?thesis
      unfolding step "1.IH" [OF True] a b u
      by (simp add: degridKernelOMP_suppu_closed)
  next
    case False
    then show ?thesis
      by (subst degridKernelOMP_suppv.simps) simp
  qed
qed

lemma degridKernelOMP_sample_closed:
  assumes "0 \<le> d" "d < int (length iu)" "d < int (length iv)" "d < int (length cOffset)"
  shows "degridKernelOMP_sample gSize support cOffset iu iv d =
         sample_dops gSize support cOffset iu iv d"
proof -
  have g: "iu ! nat d + gSize * iv ! nat d - support + gSize * (j - 0) + k =
           grid_index support gSize (iu ! nat d) (iv ! nat d) k j" for j k
    by (simp add: grid_index_def algebra_simps)
  have c: "cOffset ! nat d + (2 * support + 1) * (j - 0) + k =
           kernel_index support (cOffset ! nat d) k j" for j k
    by (simp add: kernel_index_def)
  have s: "2 * support + 1 - 1 = 2 * support" by simp
  have "degridKernelOMP_sample gSize support cOffset iu iv d =
        Zero d # degridKernelOMP_suppv 0 (2 * support + 1) gSize d
                   (iu ! nat d + gSize * iv ! nat d - support) (cOffset ! nat d)"
    using assms by (simp add: degridKernelOMP_sample_def vec_at_def)
  also have "\<dots> = sample_dops gSize support cOffset iu iv d"
    unfolding sample_dops_def degridKernelOMP_suppv_closed g c s by simp
  finally show ?thesis .
qed

lemma exec_dops_slots:
  "\<forall>x\<in>set ops. dop_ok (length data) (length grid) (length C) x \<Longrightarrow>
   \<exists>D. exec_dops grid C ops data = Some D \<and> length D = length data \<and>
       (\<forall>d<length data. D ! d =
          foldl (dop_step grid C) (data ! d) (filter (\<lambda>x. dop_dind x = int d) ops))"
proof (induction ops arbitrary: data)
  case Nil
  then show ?case by simp
next
  case (Cons x ops)
  have "\<exists>data'. exec_dop grid C data x = Some data' \<and> length data' = length data \<and>
          (\<forall>d<length data. data' ! d =
             (if dop_dind x = int d then dop_step grid C (data ! d) x else data ! d))"
  proof (cases x)
    case (Zero k)
    with Cons.prems have "0 \<le> k" "k < int (length data)" by (simp_all add: dop_ok_def)
    then show ?thesis by (auto simp: Zero nth_list_update)
  next
    case (Acc k gi ci)
    with Cons.prems have "0 \<le> k" "k < int (length data)" "0 \<le> gi" "gi < int (length grid)"
      "0 \<le> ci" "ci < int (length C)" by (simp_all add: dop_ok_def)
    then show ?thesis by (auto simp: Acc nth_list_update vec_at_def)
  next
    case DFault
    with Cons.prems show ?thesis by (simp add: dop_ok_def)
  qed
  then obtain data' where e: "exec_dop grid C data x = Some data'"
    and l: "length data' = length data"
    and c: "\<forall>d<length data. data' ! d =
             (if dop_dind x = int d then dop_step grid C (data ! d) x else data ! d)"
    by blast
  have "\<forall>y\<in>set ops. dop_ok (length data') (length grid) (length C) y"
    using Cons.prems l by simp
  from Cons.IH [OF this] obtain D where D: "exec_dops grid C ops data' = Some D"
    "length D = length data'"
    "\<forall>d<length data'. D ! d =
        foldl (dop_step grid C) (data' ! d) (filter (\<lambda>x. dop_dind x = int d) ops)"
    by blast
  show ?case
    using e l c D by simp
qed

lemma foldl_dop_step_Acc:
  "\<forall>x\<in>set ops. \<exists>d g c. x = Acc d g c \<Longrightarrow>
   foldl (dop_step grid C) a ops =
   foldl (+) a (map (\<lambda>x. grid ! nat (dop_gind x) * C ! nat (dop_cind x)) ops)"
  by (induction ops arbitrary: a) auto

lemma sample_dops_value:
  "foldl (dop_step grid C) a (sample_dops gSize support cOffset iu iv (int d)) =
   foldl (+) 0 (stencil_products grid gSize support C cOffset iu iv d)"
proof -
  let ?accs = "[Acc (int d) (grid_index support gSize (iu ! d) (iv ! d) du dv)
            (kernel_index support (cOffset ! d) du dv).
        dv \<leftarrow> [0..2 * support], du \<leftarrow> [0..2 * support]]"
  have "\<forall>x\<in>set ?accs. \<exists>d g c. x = Acc d g c" by auto
  from foldl_dop_step_Acc [OF this, of grid C 0]
  show ?thesis
    by (simp add: sample_dops_def stencil_products_def map_concat comp_def)
qed

lemma sample_dops_dind: "x \<in> set (sample_dops gSize support cOffset iu iv k) \<Longrightarrow> dop_dind x = k"
  by (auto simp: sample_dops_def)

lemma filter_concat_none:
  "\<forall>k\<in>set ks. \<forall>x\<in>set (f k). \<not> P x \<Longrightarrow> filter P (concat (map f ks)) = []"
  by (induction ks) auto

lemma filter_all_dops:
  assumes "d < n"
  shows "filter (\<lambda>x. dop_dind x = int d)
           (concat (map (sample_dops gSize support cOffset iu iv) [0..int n - 1])) =
         sample_dops gSize support cOffset iu iv (int d)"
proof -
  let ?f = "sample_dops gSize support cOffset iu iv"
  let ?P = "\<lambda>x. dop_dind x = int d"
  have s: "[0..int n - 1] = [0..int d - 1] @ int d # [int d + 1..int n - 1]"
    using assms by (intro upto_split3) simp_all
  have a: "filter ?P (concat (map ?f [0..int d - 1])) = []"
    by (rule filter_concat_none) (auto dest: sample_dops_dind)
  have b: "filter ?P (concat (map ?f [int d + 1..int n - 1])) = []"
    by (rule filter_concat_none) (auto dest: sample_dops_dind)
  have c: "filter ?P (?f (int d)) = ?f (int d)"
    by (simp add: filter_id_conv sample_dops_dind)
  show ?thesis
    unfolding s by (simp add: a b c)
qed

lemma sample_dops_ok:
  assumes b: "in_bounds n support csize cOffset iu iv gsize gSize"
    and d: "0 \<le> d" "d < int n" and x: "x \<in> set (sample_dops gSize support cOffset iu iv d)"
  shows "dop_ok n gsize csize x"
proof (cases "x = Zero d")
  case True
  then show ?thesis using d by (simp add: dop_ok_def)
next
  case False
  with x obtain dv du where r: "0 \<le> dv" "dv \<le> 2 * support" "0 \<le> du" "du \<le> 2 * support"
    and xe: "x = Acc d (grid_index support gSize (iu ! nat d) (iv ! nat d) du dv)
                  (kernel_index support (cOffset ! nat d) du dv)"
    by (auto simp: sample_dops_def)
  have "Op d dv (grid_index support gSize (iu ! nat d) (iv ! nat d) du dv)
                  (kernel_index support (cOffset ! nat d) du dv)
        \<in> set (all_ops n support gSize cOffset iu iv)"
    unfolding all_ops_iff using d r by blast
  from all_ops_ok [OF b this] show ?thesis
    using d by (simp add: xe op_ok_def dop_ok_def)
qed

lemma degridKernelOMP_iterations_closed:
  assumes "n \<le> length iu" "n \<le> length iv" "n \<le> length cOffset"
  shows "degridKernelOMP_iterations n gSize support cOffset iu iv =
         map (\<lambda>d. sample_dops gSize support cOffset iu iv (int d)) [0..<n]"
  unfolding degridKernelOMP_iterations_def
  using assms by (intro map_cong refl degridKernelOMP_sample_closed) auto

lemma degridKernel_all_dops:
  assumes "length data \<le> length iu" "length data \<le> length iv" "length data \<le> length cOffset"
  shows "degridKernel grid gSize support C cOffset iu iv data =
         exec_dops grid C
           (concat (map (sample_dops gSize support cOffset iu iv) [0..int (length data) - 1]))
           data"
proof -
  have e: "map (degridKernelOMP_sample gSize support cOffset iu iv) [0..int (length data) - 1] =
        map (sample_dops gSize support cOffset iu iv) [0..int (length data) - 1]"
    using assms by (intro map_cong refl degridKernelOMP_sample_closed) auto
  show ?thesis
    by (simp only: degridKernel_def degridKernel_dind_dops [OF order_refl] e)
qed

lemma degridKernel_cells:
  assumes b: "in_bounds (length data) support (length C) cOffset iu iv (length grid) gSize"
  shows "\<exists>D. degridKernel grid gSize support C cOffset iu iv data = Some D \<and>
             length D = length data \<and>
             (\<forall>d<length data. D ! d =
                foldl (+) 0 (stencil_products grid gSize support C cOffset iu iv d))"
proof -
  let ?n = "length data"
  let ?all = "concat (map (sample_dops gSize support cOffset iu iv) [0..int ?n - 1])"
  have l: "?n \<le> length iu" "?n \<le> length iv" "?n \<le> length cOffset"
    using b by (simp_all add: in_bounds_def)
  have ok: "\<forall>x\<in>set ?all. dop_ok ?n (length grid) (length C) x"
    using sample_dops_ok [OF b] by auto
  from exec_dops_slots [OF ok] obtain D where D: "exec_dops grid C ?all data = Some D"
    "length D = ?n"
    "\<forall>d<?n. D ! d = foldl (dop_step grid C) (data ! d) (filter (\<lambda>x. dop_dind x = int d) ?all)"
    by blast
  show ?thesis
    using D by (simp add: degridKernel_all_dops [OF l] filter_all_dops sample_dops_value)
qed

lemma degridKernelOMP_cells:
  assumes b: "in_bounds (length data) support (length C) cOffset iu iv (length grid) gSize"
    and s: "is_schedule sched
              (degridKernelOMP_iterations (length data) gSize support cOffset iu iv)"
  shows "\<exists>D. degridKernelOMP sched grid gSize support C cOffset iu iv data = Some D \<and>
             length D = length data \<and>
             (\<forall>d<length data. D ! d =
                foldl (+) 0 (stencil_products grid gSize support C cOffset iu iv d))"
proof -
  let ?n = "length data"
  let ?pools = "degridKernelOMP_iterations ?n gSize support cOffset iu iv"
  let ?run = "interleave sched ?pools"
  have l: "?n \<le> length iu" "?n \<le> length iv" "?n \<le> length cOffset"
    using b by (simp_all add: in_bounds_def)
  have pools: "?pools = map (\<lambda>d. sample_dops gSize support cOffset iu iv (int d)) [0..<?n]"
    by (rule degridKernelOMP_iterations_closed [OF l])
  have pl: "length ?pools = ?n" by (simp add: pools)
  have pn: "?pools ! t = sample_dops gSize support cOffset iu iv (int t)" if "t < ?n" for t
    using that by (simp add: pools)
  have ok: "\<forall>x\<in>set ?run. dop_ok ?n (length grid) (length C) x"
  proof
    fix x assume "x \<in> set ?run"
    from interleave_set [OF this] obtain t where t: "t < ?n" "x \<in> set (?pools ! t)"
      by (auto simp: pl)
    then show "dop_ok ?n (length grid) (length C) x"
      using sample_dops_ok [OF b, of "int t" x] by (simp add: pn)
  qed
  from exec_dops_slots [OF ok] obtain D where D: "exec_dops grid C ?run data = Some D"
    "length D = ?n"
    "\<forall>d<?n. D ! d = foldl (dop_step grid C) (data ! d) (filter (\<lambda>x. dop_dind x = int d) ?run)"
    by blast
  have f: "filter (\<lambda>x. dop_dind x = int d) ?run = sample_dops gSize support cOffset iu iv (int d)"
    if d: "d < ?n" for d
  proof -
    have others: "\<forall>t'<length ?pools. t' \<noteq> d \<longrightarrow>
                    (\<forall>x\<in>set (?pools ! t'). \<not> dop_dind x = int d)"
      by (auto simp: pl pn dest: sample_dops_dind)
    have "filter (\<lambda>x. dop_dind x = int d) ?run = filter (\<lambda>x. dop_dind x = int d) (?pools ! d)"
      using d by (intro is_schedule_filter [OF s _ others]) (simp add: pl)
    also have "\<dots> = sample_dops gSize support cOffset iu iv (int d)"
      using d by (simp add: pn filter_id_conv sample_dops_dind)
    finally show ?thesis .
  qed
  show ?thesis
    using D by (simp add: degridKernelOMP_def f sample_dops_value)
qed

text \<open>
  C2, as amended.  Within the bounds, \<^verbatim>\<open>degridKernel\<close> returns and \<open>data[d]\<close> is, for
  every sample \<open>d\<close>, the sum accumulated from \<open>0\<close>, over the stencil rows \<open>dv\<close> and
  columns \<open>du\<close> in loop order, of
  \<open>grid[(iu[d] - support + du) + gSize * (iv[d] + dv)] * C[cOffset[d] + (2 * support + 1) * dv + du]\<close>;
  \<^verbatim>\<open>degridKernelOMP\<close> returns the same vector under every interleaving of its
  iterations; and the result is the same whatever \<^verbatim>\<open>data\<close> held before the call.
\<close>

theorem degridKernel_overwrites:
  assumes b: "in_bounds (length data) support (length C) cOffset iu iv (length grid) gSize"
  shows "\<exists>D. degridKernel grid gSize support C cOffset iu iv data = Some D \<and>
             length D = length data \<and>
             (\<forall>d<length data. D ! d =
                foldl (+) 0 (stencil_products grid gSize support C cOffset iu iv d)) \<and>
             (\<forall>sched. is_schedule sched
                  (degridKernelOMP_iterations (length data) gSize support cOffset iu iv) \<longrightarrow>
                degridKernelOMP sched grid gSize support C cOffset iu iv data = Some D) \<and>
             (\<forall>data'. length data' = length data \<longrightarrow>
                degridKernel grid gSize support C cOffset iu iv data' = Some D)"
proof -
  from degridKernel_cells [OF b] obtain D where
    D: "degridKernel grid gSize support C cOffset iu iv data = Some D" "length D = length data"
       "\<forall>d<length data. D ! d =
          foldl (+) 0 (stencil_products grid gSize support C cOffset iu iv d)"
    by blast
  have omp: "degridKernelOMP sched grid gSize support C cOffset iu iv data = Some D"
    if "is_schedule sched
          (degridKernelOMP_iterations (length data) gSize support cOffset iu iv)" for sched
  proof -
    from degridKernelOMP_cells [OF b that] obtain D' where
      D': "degridKernelOMP sched grid gSize support C cOffset iu iv data = Some D'"
        "length D' = length data"
        "\<forall>d<length data. D' ! d =
           foldl (+) 0 (stencil_products grid gSize support C cOffset iu iv d)"
      by blast
    have "D' = D" using D(2,3) D'(2,3) by (intro nth_equalityI) simp_all
    then show ?thesis using D'(1) by simp
  qed
  have ow: "degridKernel grid gSize support C cOffset iu iv data' = Some D"
    if "length data' = length data" for data' :: "'a list"
  proof -
    have "in_bounds (length data') support (length C) cOffset iu iv (length grid) gSize"
      using b that by simp
    from degridKernel_cells [OF this] obtain D' where
      D': "degridKernel grid gSize support C cOffset iu iv data' = Some D'"
        "length D' = length data'"
        "\<forall>d<length data'. D' ! d =
           foldl (+) 0 (stencil_products grid gSize support C cOffset iu iv d)"
      by blast
    have "D' = D" using D(2,3) D'(2,3) that by (intro nth_equalityI) simp_all
    then show ?thesis using D'(1) by simp
  qed
  show ?thesis using D omp ow by blast
qed

text \<open>
  C2, witness: one sample on a 4 by 4 grid, two different prior values of \<^verbatim>\<open>data\<close>.
\<close>

theorem degridKernel_overwrites_witness:
  "in_bounds 1 1 9 [0] [1] [1] 16 4 \<and>
   is_schedule [0, 0, 0, 0, 0, 0, 0, 0, 0, 0] (degridKernelOMP_iterations 1 4 1 [0] [1] [1]) \<and>
   degridKernel [1::int, 2, 3, 4, 5, 6, 7, 8, 9, 10, 11, 12, 13, 14, 15, 16] 4 1
     [1, 1, 1, 1, 1, 1, 1, 1, 1] [0] [1] [1] [7] \<noteq> None \<and>
   degridKernel [1::int, 2, 3, 4, 5, 6, 7, 8, 9, 10, 11, 12, 13, 14, 15, 16] 4 1
     [1, 1, 1, 1, 1, 1, 1, 1, 1] [0] [1] [1] [1000] =
   degridKernel [1::int, 2, 3, 4, 5, 6, 7, 8, 9, 10, 11, 12, 13, 14, 15, 16] 4 1
     [1, 1, 1, 1, 1, 1, 1, 1, 1] [0] [1] [1] [7] \<and>
   degridKernelOMP [0, 0, 0, 0, 0, 0, 0, 0, 0, 0]
     [1::int, 2, 3, 4, 5, 6, 7, 8, 9, 10, 11, 12, 13, 14, 15, 16] 4 1
     [1, 1, 1, 1, 1, 1, 1, 1, 1] [0] [1] [1] [7] =
   degridKernel [1::int, 2, 3, 4, 5, 6, 7, 8, 9, 10, 11, 12, 13, 14, 15, 16] 4 1
     [1, 1, 1, 1, 1, 1, 1, 1, 1] [0] [1] [1] [7]"
proof -
  let ?grid = "[1::int, 2, 3, 4, 5, 6, 7, 8, 9, 10, 11, 12, 13, 14, 15, 16]"
  let ?C = "[1::int, 1, 1, 1, 1, 1, 1, 1, 1]"
  have h: "in_bounds (length [7::int]) 1 (length ?C) [0] [1] [1] (length ?grid) 4"
    by (simp add: in_bounds_def)
  have h0: "in_bounds 1 1 9 [0] [1] [1] 16 4"
    by (simp add: in_bounds_def)
  have s: "is_schedule [0, 0, 0, 0, 0, 0, 0, 0, 0, 0]
             (degridKernelOMP_iterations (length [7::int]) 4 1 [0] [1] [1])"
    by code_simp
  have s0: "is_schedule [0, 0, 0, 0, 0, 0, 0, 0, 0, 0] (degridKernelOMP_iterations 1 4 1 [0] [1] [1])"
    by code_simp
  from degridKernel_overwrites [OF h] obtain D where
    D: "degridKernel ?grid 4 1 ?C [0] [1] [1] [7] = Some D"
    and omp: "\<forall>sched. is_schedule sched (degridKernelOMP_iterations (length [7::int]) 4 1 [0] [1] [1]) \<longrightarrow>
                degridKernelOMP sched ?grid 4 1 ?C [0] [1] [1] [7] = Some D"
    and ow: "\<forall>data'. length data' = length [7::int] \<longrightarrow>
                degridKernel ?grid 4 1 ?C [0] [1] [1] data' = Some D"
    by blast
  have a: "degridKernel ?grid 4 1 ?C [0] [1] [1] [7] \<noteq> None" using D by simp
  have b: "degridKernel ?grid 4 1 ?C [0] [1] [1] [1000] = degridKernel ?grid 4 1 ?C [0] [1] [1] [7]"
    using ow D by simp
  from omp s have "degridKernelOMP [0, 0, 0, 0, 0, 0, 0, 0, 0, 0] ?grid 4 1 ?C [0] [1] [1] [7] =
           Some D"
    by blast
  with D have c: "degridKernelOMP [0, 0, 0, 0, 0, 0, 0, 0, 0, 0] ?grid 4 1 ?C [0] [1] [1] [7] =
           degridKernel ?grid 4 1 ?C [0] [1] [1] [7]"
    by simp
  from h0 s0 a b c show ?thesis by blast
qed

text \<open>
  C2, counterexample to the claim as stated.  On the grid \<open>1, \<dots>, 16\<close> with a table
  of ones the code sums the grid rows 1 to 3 (\<open>90\<close>), the claimed formula the rows
  0 to 2 (\<open>54\<close>); with \<open>iv = 2\<close>, inside the claimed bounds, the code reads past the
  grid.
\<close>

theorem degridKernel_spec_index_counterexample:
  "spec_in_bounds 1 1 9 [0] [1] [1] 16 4 \<and>
   degridKernel [1::int, 2, 3, 4, 5, 6, 7, 8, 9, 10, 11, 12, 13, 14, 15, 16] 4 1
     [1, 1, 1, 1, 1, 1, 1, 1, 1] [0] [1] [1] [7] = Some [90] \<and>
   foldl (+) 0 (spec_stencil_products [1::int, 2, 3, 4, 5, 6, 7, 8, 9, 10, 11, 12, 13, 14, 15, 16] 4 1
     [1, 1, 1, 1, 1, 1, 1, 1, 1] [0] [1] [1] 0) = 54 \<and>
   spec_in_bounds 1 1 9 [0] [1] [2] 16 4 \<and>
   degridKernel [1::int, 2, 3, 4, 5, 6, 7, 8, 9, 10, 11, 12, 13, 14, 15, 16] 4 1
     [1, 1, 1, 1, 1, 1, 1, 1, 1] [0] [1] [2] [7] = None"
  by code_simp

section \<open>Properties of the convolution function and of the offsets\<close>

lemma c_int_nonneg: "0 \<le> x \<Longrightarrow> c_int x = \<lfloor>x\<rfloor>"
  by (simp add: c_int_def)

lemma initCOffset_floor_eq: "initCOffset_floor x = \<lfloor>x\<rfloor>"
proof (cases "0 \<le> x")
  case True
  then show ?thesis
    by (simp add: initCOffset_floor_def c_int_def Let_def not_less)
next
  case False
  show ?thesis
  proof (cases "x = of_int \<lfloor>x\<rfloor>")
    case True
    then have "\<lceil>x\<rceil> = \<lfloor>x\<rfloor>" by (simp add: ceiling_altdef)
    then show ?thesis
      using False True by (simp add: initCOffset_floor_def c_int_def Let_def)
  next
    case ne: False
    then have c: "\<lceil>x\<rceil> = \<lfloor>x\<rfloor> + 1" by (simp add: ceiling_altdef)
    have "x < of_int (\<lfloor>x\<rfloor> + 1)" by linarith
    then show ?thesis
      using False c by (simp add: initCOffset_floor_def c_int_def Let_def)
  qed
qed

lemma initCOffset_frac_eq:
  assumes "0 \<le> overSample"
  shows "initCOffset_frac overSample x =
         \<lfloor>real_of_int overSample * (x - real_of_int \<lfloor>x\<rfloor>)\<rfloor>"
proof -
  have "0 \<le> x - real_of_int \<lfloor>x\<rfloor>" by linarith
  then have "0 \<le> real_of_int overSample * (x - real_of_int \<lfloor>x\<rfloor>)"
    using assms by simp
  then show ?thesis
    by (simp add: initCOffset_frac_def initCOffset_floor_eq c_int_nonneg)
qed

lemma initCOffset_frac_range:
  assumes "1 \<le> overSample"
  shows "0 \<le> initCOffset_frac overSample x" "initCOffset_frac overSample x \<le> overSample - 1"
proof -
  have f: "0 \<le> x - real_of_int \<lfloor>x\<rfloor>" "x - real_of_int \<lfloor>x\<rfloor> < 1" by linarith+
  have o: "0 < real_of_int overSample" using assms by simp
  have lo: "0 \<le> real_of_int overSample * (x - real_of_int \<lfloor>x\<rfloor>)"
    using f o by simp
  have "real_of_int overSample * (x - real_of_int \<lfloor>x\<rfloor>) < real_of_int overSample * 1"
    using f(2) o by (intro mult_strict_left_mono)
  then have hi: "real_of_int overSample * (x - real_of_int \<lfloor>x\<rfloor>) < real_of_int overSample"
    by simp
  have e: "initCOffset_frac overSample x = \<lfloor>real_of_int overSample * (x - real_of_int \<lfloor>x\<rfloor>)\<rfloor>"
    using assms by (intro initCOffset_frac_eq) simp
  show "0 \<le> initCOffset_frac overSample x" using lo by (simp add: e)
  have "\<lfloor>real_of_int overSample * (x - real_of_int \<lfloor>x\<rfloor>)\<rfloor> < overSample"
    using hi by (simp add: floor_less_iff)
  then show "initCOffset_frac overSample x \<le> overSample - 1" by (simp add: e)
qed

lemma initCOffset_entry_Some:
  assumes "cellSize \<noteq> 0" "wCellSize \<noteq> 0"
  shows "initCOffset_entry ui vi wi f cellSize wCellSize wSize gSize support overSample =
         Some ((2 * support + 1) * (2 * support + 1) *
                 (initCOffset_frac overSample (f * ui / cellSize) +
                  overSample * (initCOffset_frac overSample (f * vi / cellSize) +
                  overSample * initCOffset_woff wSize (f * wi / wCellSize))),
               \<lfloor>f * ui / cellSize\<rfloor> + c_div gSize 2,
               \<lfloor>f * vi / cellSize\<rfloor> + c_div gSize 2)"
  using assms by (simp add: initCOffset_entry_def Let_def initCOffset_floor_eq)

lemma initCOffset_chan_tabs:
  "0 \<le> chan \<Longrightarrow> 0 \<le> i \<Longrightarrow> i < int (length u) \<Longrightarrow> i < int (length v) \<Longrightarrow>
   i < int (length w) \<Longrightarrow> nChan = int (length freq) \<Longrightarrow> cellSize \<noteq> 0 \<Longrightarrow> wCellSize \<noteq> 0 \<Longrightarrow>
   tabs_len n tabs \<Longrightarrow> (i + 1) * nChan \<le> int n \<Longrightarrow>
   \<exists>tabs'. initCOffset_chan chan nChan i u v w freq cellSize wCellSize wSize gSize support
             overSample tabs = Some tabs' \<and>
      tabs_len n tabs' \<and>
      (\<forall>k<n. tabs_nth tabs' k =
         (if i * nChan + chan \<le> int k \<and> int k < (i + 1) * nChan
          then entry_at u v w freq cellSize wCellSize wSize gSize support overSample i
                 (int k - i * nChan)
          else tabs_nth tabs k))"
proof (induction chan nChan i u v w freq cellSize wCellSize wSize gSize support overSample tabs
       rule: initCOffset_chan.induct)
  case (1 chan nChan i u v w freq cellSize wCellSize wSize gSize support overSample tabs)
  show ?case
  proof (cases "chan < nChan")
    case False
    then have "\<not> (i * nChan + chan \<le> int k \<and> int k < (i + 1) * nChan)" for k
      by (simp add: algebra_simps)
    then show ?thesis
      using False "1.prems"(9) by (subst initCOffset_chan.simps) auto
  next
    case True
    obtain cOffset iu iv where tabs: "tabs = (cOffset, iu, iv)" by (cases tabs) auto
    have rd: "vec_at u i = Some (u ! nat i)" "vec_at v i = Some (v ! nat i)"
      "vec_at w i = Some (w ! nat i)" "vec_at freq chan = Some (freq ! nat chan)"
      using "1.prems" True by (simp_all add: vec_at_def)
    obtain co eu ev where e: "initCOffset_entry (u ! nat i) (v ! nat i) (w ! nat i)
        (freq ! nat chan) cellSize wCellSize wSize gSize support overSample = Some (co, eu, ev)"
      using initCOffset_entry_Some [OF "1.prems"(7,8)] by blast
    let ?d = "nat (i * nChan + chan)"
    let ?tabs1 = "(cOffset[?d := co], iu[?d := eu], iv[?d := ev])"
    have nn: "0 \<le> i * nChan" using "1.prems"(2,6) by simp
    have dn: "?d < n"
    proof -
      have "i * nChan + chan < i * nChan + nChan" using True by simp
      also have "\<dots> = (i + 1) * nChan" by (simp add: algebra_simps)
      finally show ?thesis using "1.prems"(10) nn "1.prems"(1) by simp
    qed
    have l1: "tabs_len n ?tabs1" using "1.prems"(9) by (simp add: tabs tabs_len_def)
    have n1: "tabs_nth ?tabs1 k = (if k = ?d then (co, eu, ev) else tabs_nth tabs k)"
      if "k < n" for k
      using that "1.prems"(9) by (simp add: tabs tabs_len_def tabs_nth_def)
    from "1.IH" [OF True refl rd(1) refl rd(2) refl rd(3) rd(4) e refl refl tabs [symmetric] refl]
      "1.prems" l1
    obtain tabs' where t': "initCOffset_chan (chan + 1) nChan i u v w freq cellSize wCellSize wSize
          gSize support overSample ?tabs1 = Some tabs'" "tabs_len n tabs'"
      and c': "\<forall>k<n. tabs_nth tabs' k =
         (if i * nChan + (chan + 1) \<le> int k \<and> int k < (i + 1) * nChan
          then entry_at u v w freq cellSize wCellSize wSize gSize support overSample i
                 (int k - i * nChan)
          else tabs_nth ?tabs1 k)"
      by auto
    have step: "initCOffset_chan chan nChan i u v w freq cellSize wCellSize wSize gSize support
             overSample tabs = Some tabs'"
      by (subst initCOffset_chan.simps) (simp add: True rd e tabs t')
    have "tabs_nth tabs' k =
         (if i * nChan + chan \<le> int k \<and> int k < (i + 1) * nChan
          then entry_at u v w freq cellSize wCellSize wSize gSize support overSample i
                 (int k - i * nChan)
          else tabs_nth tabs k)" if k: "k < n" for k
    proof (cases "k = ?d")
      case True
      then have "int k = i * nChan + chan" using nn "1.prems"(1) by simp
      moreover have "i * nChan + chan < (i + 1) * nChan"
        using \<open>chan < nChan\<close> by (simp add: algebra_simps)
      ultimately show ?thesis
        using c' k n1 [OF k] True e by (simp add: entry_at_def)
    next
      case False
      then have "int k \<noteq> i * nChan + chan" using nn "1.prems"(1) by auto
      then show ?thesis
        using c' k n1 [OF k] False by auto
    qed
    then show ?thesis using step t'(2) by blast
  qed
qed

lemma initCOffset_i_tabs:
  "0 \<le> i \<Longrightarrow> nSamples = int (length u) \<Longrightarrow> length u \<le> length v \<Longrightarrow> length u \<le> length w \<Longrightarrow>
   nChan = int (length freq) \<Longrightarrow> cellSize \<noteq> 0 \<Longrightarrow> wCellSize \<noteq> 0 \<Longrightarrow>
   tabs_len n tabs \<Longrightarrow> int n = nSamples * nChan \<Longrightarrow>
   \<exists>tabs'. initCOffset_i i nSamples nChan u v w freq cellSize wCellSize wSize gSize support
             overSample tabs = Some tabs' \<and>
      tabs_len n tabs' \<and>
      (\<forall>k<n. tabs_nth tabs' k =
         (if i * nChan \<le> int k
          then entry_at u v w freq cellSize wCellSize wSize gSize support overSample
                 (int k div nChan) (int k mod nChan)
          else tabs_nth tabs k))"
proof (induction i nSamples nChan u v w freq cellSize wCellSize wSize gSize support overSample tabs
       rule: initCOffset_i.induct)
  case (1 i nSamples nChan u v w freq cellSize wCellSize wSize gSize support overSample tabs)
  have nC: "0 \<le> nChan" using "1.prems"(5) by simp
  show ?case
  proof (cases "i < nSamples")
    case False
    have "\<not> i * nChan \<le> int k" if "k < n" for k
    proof -
      have "nSamples * nChan \<le> i * nChan"
        using False nC by (intro mult_right_mono) simp_all
      then show ?thesis using that "1.prems"(9) by simp
    qed
    then show ?thesis
      using False "1.prems"(8) by (subst initCOffset_i.simps) auto
  next
    case True
    have le: "(i + 1) * nChan \<le> int n"
    proof -
      have "(i + 1) * nChan \<le> nSamples * nChan"
        using True nC by (intro mult_right_mono) simp_all
      then show ?thesis using "1.prems"(9) by simp
    qed
    have iu: "i < int (length u)" "i < int (length v)" "i < int (length w)"
      using True "1.prems"(2,3,4) by simp_all
    from initCOffset_chan_tabs [OF order_refl "1.prems"(1) iu "1.prems"(5,6,7,8) le,
        of wSize gSize support overSample]
    obtain tabs1 where t1: "initCOffset_chan 0 nChan i u v w freq cellSize wCellSize wSize gSize
          support overSample tabs = Some tabs1" "tabs_len n tabs1"
      and c1: "\<forall>k<n. tabs_nth tabs1 k =
         (if i * nChan + 0 \<le> int k \<and> int k < (i + 1) * nChan
          then entry_at u v w freq cellSize wCellSize wSize gSize support overSample i
                 (int k - i * nChan)
          else tabs_nth tabs k)"
      by blast
    from "1.IH" [OF True t1(1)] "1.prems" t1(2)
    obtain tabs' where t': "initCOffset_i (i + 1) nSamples nChan u v w freq cellSize wCellSize
          wSize gSize support overSample tabs1 = Some tabs'" "tabs_len n tabs'"
      and c': "\<forall>k<n. tabs_nth tabs' k =
         (if (i + 1) * nChan \<le> int k
          then entry_at u v w freq cellSize wCellSize wSize gSize support overSample
                 (int k div nChan) (int k mod nChan)
          else tabs_nth tabs1 k)"
      by auto
    have step: "initCOffset_i i nSamples nChan u v w freq cellSize wCellSize wSize gSize support
             overSample tabs = Some tabs'"
      by (subst initCOffset_i.simps) (simp add: True t1 t')
    have "tabs_nth tabs' k =
         (if i * nChan \<le> int k
          then entry_at u v w freq cellSize wCellSize wSize gSize support overSample
                 (int k div nChan) (int k mod nChan)
          else tabs_nth tabs k)" if k: "k < n" for k
    proof (cases "(i + 1) * nChan \<le> int k")
      case True
      then have "i * nChan \<le> int k" using nC by (simp add: algebra_simps)
      then show ?thesis using c' k True by simp
    next
      case hi: False
      show ?thesis
      proof (cases "i * nChan \<le> int k")
        case False
        then show ?thesis using c' c1 k hi by simp
      next
        case lo: True
        let ?r = "int k - i * nChan"
        have r: "0 \<le> ?r" "?r < nChan" using lo hi by (simp_all add: algebra_simps)
        have "int k = ?r + i * nChan" by simp
        then have "int k div nChan = i + ?r div nChan" "int k mod nChan = ?r mod nChan"
          using r by (metis div_mult_self1 less_le_not_le add.commute mult.commute div_mult_self3 not_less_iff_gr_or_eq, metis mod_mult_self1)
        then have "int k div nChan = i" "int k mod nChan = ?r"
          using r by (simp_all add: div_pos_pos_trivial mod_pos_pos_trivial)
        then show ?thesis using c' c1 k hi lo by simp
      qed
    qed
    then show ?thesis using step t'(2) by blast
  qed
qed

lemma initCOffset_tabs:
  assumes "length u \<le> length v" "length u \<le> length w" "cellSize \<noteq> 0" "wCellSize \<noteq> 0"
  shows "\<exists>cOffset iu iv.
      initCOffset u v w freq cellSize wCellSize wSize gSize support overSample =
        Some (cOffset, iu, iv) \<and>
      length cOffset = length u * length freq \<and> length iu = length u * length freq \<and>
      length iv = length u * length freq \<and>
      (\<forall>k<length u * length freq. (cOffset ! k, iu ! k, iv ! k) =
          entry_at u v w freq cellSize wCellSize wSize gSize support overSample
            (int k div int (length freq)) (int k mod int (length freq)))"
proof -
  let ?n = "length u * length freq"
  let ?z = "(replicate ?n (0::int), replicate ?n (0::int), replicate ?n (0::int))"
  have l: "tabs_len ?n ?z" by (simp add: tabs_len_def)
  have n: "int ?n = int (length u) * int (length freq)" by simp
  from initCOffset_i_tabs [OF order_refl refl assms(1,2) refl assms(3,4) l n,
      of wSize gSize support overSample]
  obtain tabs' where t: "initCOffset_i 0 (int (length u)) (int (length freq)) u v w freq cellSize
        wCellSize wSize gSize support overSample ?z = Some tabs'" "tabs_len ?n tabs'"
    and c: "\<forall>k<?n. tabs_nth tabs' k =
          entry_at u v w freq cellSize wCellSize wSize gSize support overSample
            (int k div int (length freq)) (int k mod int (length freq))"
    by auto
  obtain cOffset iu iv where tabs: "tabs' = (cOffset, iu, iv)" by (cases tabs') auto
  have "nat (int (length u) * int (length freq)) = ?n"
    by (simp add: nat_mult_distrib)
  then have "initCOffset u v w freq cellSize wCellSize wSize gSize support overSample =
        Some (cOffset, iu, iv)"
    using t(1) by (simp add: initCOffset_def Let_def tabs)
  then show ?thesis
    using t(2) c by (simp add: tabs tabs_len_def tabs_nth_def)
qed

lemma initCOffset_at:
  assumes "length u \<le> length v" "length u \<le> length w" "cellSize \<noteq> 0" "wCellSize \<noteq> 0"
    and "initCOffset u v w freq cellSize wCellSize wSize gSize support overSample =
           Some (cOffset, iu, iv)"
    and "i < length u" "chan < length freq"
  shows "i * length freq + chan < length cOffset"
    and "length cOffset = length u * length freq" "length iu = length u * length freq"
        "length iv = length u * length freq"
    and "(cOffset ! (i * length freq + chan), iu ! (i * length freq + chan),
          iv ! (i * length freq + chan)) =
         ((2 * support + 1) * (2 * support + 1) *
                 (initCOffset_frac overSample (freq ! chan * u ! i / cellSize) +
                  overSample * (initCOffset_frac overSample (freq ! chan * v ! i / cellSize) +
                  overSample * initCOffset_woff wSize (freq ! chan * w ! i / wCellSize))),
               \<lfloor>freq ! chan * u ! i / cellSize\<rfloor> + c_div gSize 2,
               \<lfloor>freq ! chan * v ! i / cellSize\<rfloor> + c_div gSize 2)"
proof -
  from initCOffset_tabs [OF assms(1-4), of freq wSize gSize support overSample] assms(5)
  have l: "length cOffset = length u * length freq" "length iu = length u * length freq"
        "length iv = length u * length freq"
    and c: "\<forall>k<length u * length freq. (cOffset ! k, iu ! k, iv ! k) =
          entry_at u v w freq cellSize wCellSize wSize gSize support overSample
            (int k div int (length freq)) (int k mod int (length freq))"
    by auto
  show "length cOffset = length u * length freq" "length iu = length u * length freq"
        "length iv = length u * length freq" by (rule l)+
  let ?k = "i * length freq + chan"
  have "?k < i * length freq + length freq" using assms(7) by simp
  also have "\<dots> = (i + 1) * length freq" by simp
  also have "\<dots> \<le> length u * length freq"
    using assms(6) by (intro mult_le_mono1) simp
  finally have k: "?k < length u * length freq" .
  then show "?k < length cOffset" using l by simp
  have "(chan + i * length freq) div length freq = i + chan div length freq"
    using assms(7) by (intro div_mult_self1) auto
  then have "?k div length freq = i" "?k mod length freq = chan"
    using assms(7) by (simp_all add: add.commute)
  then have dm: "int ?k div int (length freq) = int i" "int ?k mod int (length freq) = int chan"
    by (metis zdiv_int, metis zmod_int)
  show "(cOffset ! ?k, iu ! ?k, iv ! ?k) =
         ((2 * support + 1) * (2 * support + 1) *
                 (initCOffset_frac overSample (freq ! chan * u ! i / cellSize) +
                  overSample * (initCOffset_frac overSample (freq ! chan * v ! i / cellSize) +
                  overSample * initCOffset_woff wSize (freq ! chan * w ! i / wCellSize))),
               \<lfloor>freq ! chan * u ! i / cellSize\<rfloor> + c_div gSize 2,
               \<lfloor>freq ! chan * v ! i / cellSize\<rfloor> + c_div gSize 2)"
  proof -
    from c k have "(cOffset ! ?k, iu ! ?k, iv ! ?k) =
          entry_at u v w freq cellSize wCellSize wSize gSize support overSample
            (int ?k div int (length freq)) (int ?k mod int (length freq))"
      by blast
    then have "(cOffset ! ?k, iu ! ?k, iv ! ?k) =
          entry_at u v w freq cellSize wCellSize wSize gSize support overSample (int i) (int chan)"
      unfolding dm .
    then show ?thesis
      by (simp only: entry_at_def initCOffset_entry_Some [OF assms(3,4)] option.sel nat_int)
  qed
qed

lemma initC_fill_length:
  "length (initC_fill freq cellSize wCellSize wSize overSample sSize C0) = length C0"
proof -
  have a: "length (foldl (\<lambda>C i. C[g i := h i]) C xs) = length C"
    for g :: "int \<Rightarrow> nat" and h :: "int \<Rightarrow> complex" and C xs
    by (induction xs arbitrary: C) simp_all
  have b: "length (foldl f C xs) = length C" if "\<And>C x. length (f C x) = length C"
    for f :: "complex list \<Rightarrow> int \<Rightarrow> complex list" and C xs
    using that by (induction xs arbitrary: C) simp_all
  show ?thesis
    unfolding initC_fill_def Let_def
    by (intro b a)
qed

lemma initC_normalise_length: "length (initC_normalise wSize overSample n C) = length C"
proof -
  have "length (foldl (\<lambda>C i. C[nat i := h C i]) C xs) = length C"
    for h :: "complex list \<Rightarrow> int \<Rightarrow> complex" and C xs
    by (induction xs arbitrary: C) simp_all
  then show ?thesis unfolding initC_normalise_def Let_def .
qed

lemma initC_Some:
  assumes "freq \<noteq> []" "cellSize \<noteq> 0" "0 \<le> \<bar>baseline\<bar> * cellSize * freq ! 0" "0 < wSize"
  shows "\<exists>C. initC freq cellSize baseline wSize =
           Some (c_int (1.5 * sqrt (\<bar>baseline\<bar> * cellSize * freq ! 0) / cellSize), 8,
                 2 * baseline * freq ! 0 / real_of_int wSize, C) \<and>
         int (length C) =
           (2 * c_int (1.5 * sqrt (\<bar>baseline\<bar> * cellSize * freq ! 0) / cellSize) + 1)\<^sup>2 *
           8\<^sup>2 * wSize"
proof -
  let ?s = "c_int (1.5 * sqrt (\<bar>baseline\<bar> * cellSize * freq ! 0) / cellSize)"
  let ?n = "(2 * ?s + 1) * (2 * ?s + 1) * 8 * 8 * wSize"
  have "0 \<le> (2 * ?s + 1) * (2 * ?s + 1)" by simp
  then have n: "0 \<le> ?n" using assms(4) by simp
  have s: "initC_support freq cellSize baseline = Some ?s"
    using assms by (simp add: initC_support_def not_less)
  have w: "initC_wCellSize freq baseline wSize = Some (2 * baseline * freq ! 0 / real_of_int wSize)"
    using assms by (simp add: initC_wCellSize_def)
  show ?thesis
    using n by (simp add: initC_def s w Let_def initC_normalise_length initC_fill_length
        power2_eq_square not_less algebra_simps)
qed

lemma initC_SomeD:
  assumes "initC freq cellSize baseline wSize = Some (support, overSample, wCellSize, C)"
  shows "freq \<noteq> []" "cellSize \<noteq> 0" "0 \<le> \<bar>baseline\<bar> * cellSize * freq ! 0" "wSize \<noteq> 0"
    "support = c_int (1.5 * sqrt (\<bar>baseline\<bar> * cellSize * freq ! 0) / cellSize)"
    "overSample = 8" "wCellSize = 2 * baseline * freq ! 0 / real_of_int wSize"
    "int (length C) = (2 * support + 1)\<^sup>2 * overSample\<^sup>2 * wSize"
proof -
  from assms obtain s wc where s: "initC_support freq cellSize baseline = Some s"
    and w: "initC_wCellSize freq baseline wSize = Some wc"
    by (auto simp: initC_def split: option.splits)
  from s show g: "freq \<noteq> []" "cellSize \<noteq> 0" "0 \<le> \<bar>baseline\<bar> * cellSize * freq ! 0"
    by (auto simp: initC_support_def split: if_splits)
  from w show z: "wSize \<noteq> 0" by (auto simp: initC_wCellSize_def split: if_splits)
  from s g have se: "s = c_int (1.5 * sqrt (\<bar>baseline\<bar> * cellSize * freq ! 0) / cellSize)"
    by (auto simp: initC_support_def split: if_splits)
  from w g z have we: "wc = 2 * baseline * freq ! 0 / real_of_int wSize"
    by (auto simp: initC_wCellSize_def split: if_splits)
  from assms s w have n: "\<not> (2 * s + 1) * (2 * s + 1) * 8 * 8 * wSize < 0"
    and r: "support = s" "overSample = 8" "wCellSize = wc"
    and l: "length C = nat ((2 * s + 1) * (2 * s + 1) * 8 * 8 * wSize)"
    by (auto simp: initC_def Let_def initC_normalise_length initC_fill_length split: if_splits)
  show "support = c_int (1.5 * sqrt (\<bar>baseline\<bar> * cellSize * freq ! 0) / cellSize)"
    "overSample = 8" "wCellSize = 2 * baseline * freq ! 0 / real_of_int wSize"
    using r se we by simp_all
  show "int (length C) = (2 * support + 1)\<^sup>2 * overSample\<^sup>2 * wSize"
    using n l r by (simp add: power2_eq_square algebra_simps)
qed









text \<open>
  In exact arithmetic the offsets stay inside the table.  With \<^verbatim>\<open>support\<close>,
  \<^verbatim>\<open>overSample\<close>, \<^verbatim>\<open>wCellSize\<close> and the table \<open>C\<close> as the exact \<^verbatim>\<open>initC\<close> returns
  them, \<open>C\<close> has \<open>(2 * support + 1)\<^sup>2 * overSample\<^sup>2 * wSize\<close> entries, and for every
  sample and channel whose w-plane \<open>woff\<close> lies in \<open>[0, wSize)\<close>: \<open>fracu\<close> and \<open>fracv\<close>
  lie in \<open>[0, overSample - 1]\<close>, \<open>0 \<le> cOffset \<le> C.size() - (2 * support + 1)\<^sup>2\<close>, and
  every index \<open>cOffset + (2 * support + 1) * row + col\<close> of the stencil is inside \<open>C\<close>.
  This is what the adjustment of \<^verbatim>\<open>iu\<close> after the truncation is there for: it makes
  \<open>uScaled - iu\<close> a number in \<open>[0, 1)\<close>.  It does not hold of the \<^verbatim>\<open>double\<close>s of the
  source, see the last section.
\<close>

lemma initCOffset_cOffset_in_table:
  assumes c: "initC freq cellSize baseline wSize = Some (support, overSample, wCellSize, C)"
    and l: "length u \<le> length v" "length u \<le> length w" and wc: "wCellSize \<noteq> 0"
  shows "\<exists>cOffset iu iv.
      initCOffset u v w freq cellSize wCellSize wSize gSize support overSample =
        Some (cOffset, iu, iv) \<and>
      int (length C) = (2 * support + 1)\<^sup>2 * overSample\<^sup>2 * wSize \<and>
      (\<forall>i<length u. \<forall>chan<length freq.
         let woff = initCOffset_woff wSize (freq ! chan * w ! i / wCellSize);
             fracu = initCOffset_frac overSample (freq ! chan * u ! i / cellSize);
             fracv = initCOffset_frac overSample (freq ! chan * v ! i / cellSize);
             co = cOffset ! (i * length freq + chan)
         in 0 \<le> woff \<and> woff < wSize \<longrightarrow>
            0 \<le> fracu \<and> fracu \<le> overSample - 1 \<and> 0 \<le> fracv \<and> fracv \<le> overSample - 1 \<and>
            0 \<le> co \<and> co \<le> int (length C) - (2 * support + 1)\<^sup>2 \<and>
            (\<forall>row col. 0 \<le> row \<and> row < 2 * support + 1 \<and> 0 \<le> col \<and> col < 2 * support + 1 \<longrightarrow>
               0 \<le> kernel_index support co col row \<and>
               kernel_index support co col row < int (length C)))"
proof -
  note d = initC_SomeD [OF c]
  have cs: "cellSize \<noteq> 0" and os: "overSample = 8"
    and len: "int (length C) = (2 * support + 1)\<^sup>2 * overSample\<^sup>2 * wSize"
    by (rule d)+
  from initCOffset_tabs [OF l cs wc, of freq wSize gSize support overSample]
  obtain cOffset iu iv where
    r: "initCOffset u v w freq cellSize wCellSize wSize gSize support overSample =
          Some (cOffset, iu, iv)"
    by blast
  let ?S = "(2 * support + 1) * (2 * support + 1)"
  have S0: "0 \<le> ?S" by simp
  have main: "0 \<le> fracu \<and> fracu \<le> overSample - 1 \<and> 0 \<le> fracv \<and> fracv \<le> overSample - 1 \<and>
            0 \<le> co \<and> co \<le> int (length C) - (2 * support + 1)\<^sup>2 \<and>
            (\<forall>row col. 0 \<le> row \<and> row < 2 * support + 1 \<and> 0 \<le> col \<and> col < 2 * support + 1 \<longrightarrow>
               0 \<le> kernel_index support co col row \<and>
               kernel_index support co col row < int (length C))"
    if i: "i < length u" "chan < length freq"
      and woff: "woff = initCOffset_woff wSize (freq ! chan * w ! i / wCellSize)"
      and fu: "fracu = initCOffset_frac overSample (freq ! chan * u ! i / cellSize)"
      and fv: "fracv = initCOffset_frac overSample (freq ! chan * v ! i / cellSize)"
      and co: "co = cOffset ! (i * length freq + chan)"
      and w: "0 \<le> woff" "woff < wSize"
    for i chan woff fracu fracv co
  proof -
    have o1: "1 \<le> overSample" using os by simp
    have a: "0 \<le> fracu" "fracu \<le> 7" "0 \<le> fracv" "fracv \<le> 7"
      using initCOffset_frac_range [OF o1] os by (simp_all add: fu fv)
    let ?m = "fracu + 8 * (fracv + 8 * woff)"
    have m: "0 \<le> ?m" "?m \<le> 64 * wSize - 1" using a w by simp_all
    have ce: "co = ?S * ?m"
      using initCOffset_at(5) [OF l cs wc r i] by (simp add: co fu fv woff os)
    have le: "int (length C) = ?S * (64 * wSize)"
      using len by (simp add: os power2_eq_square)
    have c0: "0 \<le> co" using S0 m(1) unfolding ce by (rule mult_nonneg_nonneg)
    have "?S * ?m \<le> ?S * (64 * wSize - 1)" using m(2) S0 by (rule mult_left_mono)
    then have c1: "co \<le> int (length C) - ?S"
      unfolding ce le by (simp add: algebra_simps)
    have k: "0 \<le> kernel_index support co col row \<and>
             kernel_index support co col row < int (length C)"
      if rc: "0 \<le> row" "row < 2 * support + 1" "0 \<le> col" "col < 2 * support + 1" for row col
    proof -
      have s0: "0 \<le> 2 * support + 1" using rc by simp
      have "(2 * support + 1) * row \<le> (2 * support + 1) * (2 * support)"
        using rc s0 by (intro mult_left_mono) simp_all
      then have "(2 * support + 1) * row + col < ?S"
        using rc by (simp add: algebra_simps)
      moreover have "0 \<le> (2 * support + 1) * row" using s0 rc by simp
      ultimately show ?thesis
        using c0 c1 rc by (simp add: kernel_index_def)
    qed
    show ?thesis
      using a c0 c1 k os by (simp add: power2_eq_square)
  qed
  show ?thesis
    using r len main by (simp add: Let_def)
qed

text \<open>An instance: one w-plane, \<open>support = 1\<close>, a table of 576 entries.\<close>

lemma initCOffset_cOffset_in_table_witness:
  "\<exists>C cOffset iu iv.
     initC [1] 1 1 1 = Some (1, 8, 2, C) \<and>
     length [1/2 :: real] \<le> length [-1/4 :: real] \<and> length [1/2 :: real] \<le> length [1 :: real] \<and>
     (2::real) \<noteq> 0 \<and>
     initCOffset [1/2] [-1/4] [1] [1] 1 2 1 100 1 8 = Some (cOffset, iu, iv) \<and>
     int (length C) = 576 \<and> 0 \<le> cOffset ! 0 \<and> cOffset ! 0 \<le> 567 \<and>
     0 \<le> kernel_index 1 (cOffset ! 0) 2 2 \<and> kernel_index 1 (cOffset ! 0) 2 2 < 576"
proof -
  have g: "[1::real] \<noteq> []" "(1::real) \<noteq> 0" "(0::real) \<le> \<bar>1\<bar> * 1 * [1] ! 0" "(0::int) < 1"
    by simp_all
  from initC_Some [OF g] obtain C where c: "initC [1] 1 1 1 = Some (1, 8, 2, C)"
    by (auto simp: c_int_def)
  have h: "length [1/2 :: real] \<le> length [-1/4 :: real]" "length [1/2 :: real] \<le> length [1 :: real]"
    "(2::real) \<noteq> 0"
    by simp_all
  from initCOffset_cOffset_in_table [OF c h, of 100]
  obtain cOffset iu iv where
    r: "initCOffset [1/2] [-1/4] [1] [1] 1 2 1 100 1 8 = Some (cOffset, iu, iv)"
    and len: "int (length C) = (2 * 1 + 1)\<^sup>2 * 8\<^sup>2 * 1"
    and a: "\<forall>i<length [1/2 :: real]. \<forall>chan<length [1::real].
         let woff = initCOffset_woff 1 ([1] ! chan * [1] ! i / 2);
             fracu = initCOffset_frac 8 ([1] ! chan * [1/2] ! i / 1);
             fracv = initCOffset_frac 8 ([1] ! chan * [-1/4] ! i / 1);
             co = cOffset ! (i * length [1::real] + chan)
         in 0 \<le> woff \<and> woff < 1 \<longrightarrow>
            0 \<le> fracu \<and> fracu \<le> 8 - 1 \<and> 0 \<le> fracv \<and> fracv \<le> 8 - 1 \<and>
            0 \<le> co \<and> co \<le> int (length C) - (2 * 1 + 1)\<^sup>2 \<and>
            (\<forall>row col. 0 \<le> row \<and> row < 2 * 1 + 1 \<and> 0 \<le> col \<and> col < 2 * 1 + 1 \<longrightarrow>
               0 \<le> kernel_index 1 co col row \<and>
               kernel_index 1 co col row < int (length C))"
    by blast
  have w: "initCOffset_woff 1 (1 / 2) = 0"
    by (simp add: initCOffset_woff_def c_div_def c_int_def)
  have l: "int (length C) = 576" using len by simp
  from a [rule_format, of 0 0] w l
  have b: "0 \<le> cOffset ! 0" "cOffset ! 0 \<le> 567"
    and k: "\<forall>row col. 0 \<le> row \<and> row < 3 \<and> 0 \<le> col \<and> col < 3 \<longrightarrow>
               0 \<le> kernel_index 1 (cOffset ! 0) col row \<and> kernel_index 1 (cOffset ! 0) col row < 576"
    by (simp_all add: Let_def)
  from k [rule_format, of 2 2]
  have "0 \<le> kernel_index 1 (cOffset ! 0) 2 2 \<and> kernel_index 1 (cOffset ! 0) 2 2 < 576"
    by simp
  with c h r l b show ?thesis by blast
qed

subsection \<open>The configuration of the driver\<close>

lemma main_freq_nth:
  "chan < nChan \<Longrightarrow>
   main_freq nChan ! chan = (1400000000 - 200000 * real chan / real nChan) / 299800000"
  by (simp add: main_freq_def)

lemma main_freq_range:
  assumes "chan < nChan"
  shows "0 < main_freq nChan ! chan" "main_freq nChan ! chan \<le> 7000 / 1499"
proof -
  have q: "0 \<le> real chan / real nChan" "real chan / real nChan < 1"
    using assms by simp_all
  then have "0 \<le> 200000 * (real chan / real nChan)" "200000 * (real chan / real nChan) < 200000"
    by simp_all
  then show "0 < main_freq nChan ! chan" "main_freq nChan ! chan \<le> 7000 / 1499"
    using assms by (simp_all add: main_freq_nth)
qed

lemma main_scaled_floor:
  assumes f: "0 < f" "f \<le> 7000 / 1499" and x: "\<bar>x\<bar> \<le> 2000 / 2"
  shows "- 934 \<le> \<lfloor>f * x / 5\<rfloor>" "\<lfloor>f * x / 5\<rfloor> \<le> 933"
proof -
  have "\<bar>f * x\<bar> = f * \<bar>x\<bar>" using f by (simp add: abs_mult)
  also have "\<dots> \<le> (7000 / 1499) * 1000"
    using f x by (intro mult_mono) simp_all
  finally have "\<bar>f * x\<bar> < 4670" by simp
  then have b: "- 934 < f * x / 5" "f * x / 5 < 934" by (simp_all add: abs_less_iff)
  show "- 934 \<le> \<lfloor>f * x / 5\<rfloor>" using b(1) by (simp add: le_floor_iff)
  have "\<lfloor>f * x / 5\<rfloor> < 934" using b(2) by (simp add: floor_less_iff)
  then show "\<lfloor>f * x / 5\<rfloor> \<le> 933" by simp
qed

lemma main_support:
  assumes "1 \<le> nChan"
  shows "c_int (1.5 * sqrt (\<bar>2000\<bar> * 5 * main_freq nChan ! 0) / 5) = 64"
proof -
  have f0: "main_freq nChan ! 0 = 7000 / 1499"
    using assms by (simp add: main_freq_nth)
  let ?R = "(70000000 / 1499 :: real)"
  have lo: "214 \<le> sqrt ?R" by (rule real_le_rsqrt) (simp add: power2_eq_square)
  have hi: "sqrt ?R < 433 / 2" by (rule real_less_lsqrt) (simp_all add: power2_eq_square)
  have e: "1.5 * sqrt (\<bar>2000\<bar> * 5 * main_freq nChan ! 0) / 5 = 3 / 10 * sqrt ?R"
    by (simp add: f0)
  have "64 \<le> 3 / 10 * sqrt ?R" "3 / 10 * sqrt ?R < 65" using lo hi by simp_all
  then have "\<lfloor>3 / 10 * sqrt ?R\<rfloor> = 64" by (simp add: floor_eq_iff)
  then show ?thesis unfolding e by (simp add: c_int_def)
qed

text \<open>
  C9.  In the configuration of \<^verbatim>\<open>main\<close> (\<open>gSize = 4096\<close>, \<open>cellSize = 5.0\<close>,
  \<open>baseline = 2000\<close>, its frequencies for any number of channels, any \<open>wSize > 0\<close>),
  \<^verbatim>\<open>initC\<close> gives \<open>support = 64\<close> and, for samples with \<open>|u|, |v|, |w| \<le> baseline / 2\<close>
  (the bounds included), \<^verbatim>\<open>initCOffset\<close> gives every \<open>iu\<close> and \<open>iv\<close> in
  \<open>[support, gSize - support)\<close>; every grid index of a stencil, as the kernels form
  it (rows \<open>iv\<close> to \<open>iv + 2 * support\<close>) and as the claim describes it (rows
  \<open>iv - support\<close> to \<open>iv + support\<close>), lies within the \<open>gSize * gSize\<close> cells.
\<close>

theorem main_offsets_in_grid:
  assumes n: "1 \<le> nChan" and ws: "0 < wSize"
    and l: "length u \<le> length v" "length u \<le> length w"
    and b: "within_baseline 2000 u" "within_baseline 2000 v" "within_baseline 2000 w"
  shows "\<exists>wCellSize C cOffset iu iv.
      initC (main_freq nChan) 5 2000 wSize = Some (64, 8, wCellSize, C) \<and>
      initCOffset u v w (main_freq nChan) 5 wCellSize wSize 4096 64 8 = Some (cOffset, iu, iv) \<and>
      length iu = length u * nChan \<and> length iv = length u * nChan \<and>
      (\<forall>k<length u * nChan.
         64 \<le> iu ! k \<and> iu ! k < 4096 - 64 \<and> 64 \<le> iv ! k \<and> iv ! k < 4096 - 64 \<and>
         (\<forall>du dv. 0 \<le> du \<and> du \<le> 2 * 64 \<and> 0 \<le> dv \<and> dv \<le> 2 * 64 \<longrightarrow>
            0 \<le> grid_index 64 4096 (iu ! k) (iv ! k) du dv \<and>
            grid_index 64 4096 (iu ! k) (iv ! k) du dv < 4096 * 4096 \<and>
            0 \<le> spec_grid_index 64 4096 (iu ! k) (iv ! k) du dv \<and>
            spec_grid_index 64 4096 (iu ! k) (iv ! k) du dv < 4096 * 4096))"
proof -
  let ?freq = "main_freq nChan"
  have lf: "length ?freq = nChan" by (simp add: main_freq_def)
  have f0: "?freq ! 0 = 7000 / 1499" using n by (simp add: main_freq_nth)
  have g: "?freq \<noteq> []" "(5::real) \<noteq> 0" "0 \<le> \<bar>2000\<bar> * 5 * ?freq ! 0"
    using n lf f0 by auto
  from initC_Some [OF g ws] obtain C where
    c: "initC ?freq 5 2000 wSize = Some (64, 8, 2 * 2000 * ?freq ! 0 / real_of_int wSize, C)"
    unfolding main_support [OF n] by blast
  let ?wc = "2 * 2000 * ?freq ! 0 / real_of_int wSize"
  have wc: "?wc \<noteq> 0" using ws by (simp add: f0)
  from initCOffset_tabs [OF l g(2) wc, of ?freq wSize 4096 64 8]
  obtain cOffset iu iv where
    r: "initCOffset u v w ?freq 5 ?wc wSize 4096 64 8 = Some (cOffset, iu, iv)"
    and len: "length iu = length u * nChan" "length iv = length u * nChan"
    and e: "\<forall>k<length u * nChan. (cOffset ! k, iu ! k, iv ! k) =
          entry_at u v w ?freq 5 ?wc wSize 4096 64 8 (int k div int nChan) (int k mod int nChan)"
    unfolding lf by blast
  have d: "c_div 4096 2 = 2048" by (simp add: c_div_def)
  have rng: "1114 \<le> iu ! k \<and> iu ! k \<le> 2981 \<and> 1114 \<le> iv ! k \<and> iv ! k \<le> 2981"
    if k: "k < length u * nChan" for k
  proof -
    let ?i = "k div nChan" and ?c = "k mod nChan"
    have i: "?i < length u" using k by (simp add: less_mult_imp_div_less)
    have ch: "?c < nChan" using n by simp
    have ix: "nat (int k div int nChan) = ?i" "nat (int k mod int nChan) = ?c"
      by (simp_all add: zdiv_int [symmetric] zmod_int [symmetric])
    have ui: "\<bar>u ! ?i\<bar> \<le> 2000 / 2" "\<bar>v ! ?i\<bar> \<le> 2000 / 2"
      using b i l by (simp_all add: within_baseline_def)
    note fr = main_freq_range [OF ch]
    from e k have "(cOffset ! k, iu ! k, iv ! k) =
          entry_at u v w ?freq 5 ?wc wSize 4096 64 8 (int k div int nChan) (int k mod int nChan)"
      by blast
    then have "(cOffset ! k, iu ! k, iv ! k) =
          the (initCOffset_entry (u ! ?i) (v ! ?i) (w ! ?i) (?freq ! ?c) 5 ?wc wSize 4096 64 8)"
      unfolding entry_at_def ix .
    then have iv: "iu ! k = \<lfloor>?freq ! ?c * u ! ?i / 5\<rfloor> + 2048"
      "iv ! k = \<lfloor>?freq ! ?c * v ! ?i / 5\<rfloor> + 2048"
      unfolding initCOffset_entry_Some [OF g(2) wc] d by simp_all
    note A = main_scaled_floor [OF fr ui(1)] and B = main_scaled_floor [OF fr ui(2)]
    show ?thesis
      unfolding iv using A B by linarith
  qed
  have "64 \<le> iu ! k \<and> iu ! k < 4096 - 64 \<and> 64 \<le> iv ! k \<and> iv ! k < 4096 - 64 \<and>
         (\<forall>du dv. 0 \<le> du \<and> du \<le> 2 * 64 \<and> 0 \<le> dv \<and> dv \<le> 2 * 64 \<longrightarrow>
            0 \<le> grid_index 64 4096 (iu ! k) (iv ! k) du dv \<and>
            grid_index 64 4096 (iu ! k) (iv ! k) du dv < 4096 * 4096 \<and>
            0 \<le> spec_grid_index 64 4096 (iu ! k) (iv ! k) du dv \<and>
            spec_grid_index 64 4096 (iu ! k) (iv ! k) du dv < 4096 * 4096)"
    if k: "k < length u * nChan" for k
    using rng [OF k] by (simp add: grid_index_def spec_grid_index_def)
  then show ?thesis using c r len by blast
qed

text \<open>
  C9, witness: the boundary samples \<open>u = -v = \<plusminus>baseline / 2\<close>, one channel, 33 w-planes.
\<close>

theorem main_offsets_in_grid_witness:
  "(1::nat) \<le> 1 \<and> (0::int) < 33 \<and>
   length [1000, -1000 :: real] \<le> length [-1000, 1000 :: real] \<and>
   length [1000, -1000 :: real] \<le> length [0, 0 :: real] \<and>
   within_baseline 2000 [1000, -1000] \<and> within_baseline 2000 [-1000, 1000] \<and>
   within_baseline 2000 [0, 0] \<and>
   (\<exists>wCellSize C cOffset iu iv.
      initC (main_freq 1) 5 2000 33 = Some (64, 8, wCellSize, C) \<and>
      initCOffset [1000, -1000] [-1000, 1000] [0, 0] (main_freq 1) 5 wCellSize 33 4096 64 8 =
        Some (cOffset, iu, iv) \<and>
      64 \<le> iu ! 0 \<and> iu ! 0 < 4096 - 64 \<and> 64 \<le> iv ! 0 \<and> iv ! 0 < 4096 - 64 \<and>
      64 \<le> iu ! 1 \<and> iu ! 1 < 4096 - 64 \<and> 64 \<le> iv ! 1 \<and> iv ! 1 < 4096 - 64 \<and>
      0 \<le> grid_index 64 4096 (iu ! 0) (iv ! 0) 128 128 \<and>
      grid_index 64 4096 (iu ! 0) (iv ! 0) 128 128 < 4096 * 4096)"
proof -
  have h: "(1::nat) \<le> 1" "(0::int) < 33"
    "length [1000, -1000 :: real] \<le> length [-1000, 1000 :: real]"
    "length [1000, -1000 :: real] \<le> length [0, 0 :: real]"
    "within_baseline 2000 [1000, -1000]" "within_baseline 2000 [-1000, 1000]"
    "within_baseline 2000 [0, 0]"
    by (simp_all add: within_baseline_def)
  from main_offsets_in_grid [OF h]
  obtain wCellSize C cOffset iu iv where
    c: "initC (main_freq 1) 5 2000 33 = Some (64, 8, wCellSize, C)"
    and r: "initCOffset [1000, -1000] [-1000, 1000] [0, 0] (main_freq 1) 5 wCellSize 33 4096 64 8 =
        Some (cOffset, iu, iv)"
    and a: "\<forall>k<length [1000, -1000 :: real] * 1.
         64 \<le> iu ! k \<and> iu ! k < 4096 - 64 \<and> 64 \<le> iv ! k \<and> iv ! k < 4096 - 64 \<and>
         (\<forall>du dv. 0 \<le> du \<and> du \<le> 2 * 64 \<and> 0 \<le> dv \<and> dv \<le> 2 * 64 \<longrightarrow>
            0 \<le> grid_index 64 4096 (iu ! k) (iv ! k) du dv \<and>
            grid_index 64 4096 (iu ! k) (iv ! k) du dv < 4096 * 4096 \<and>
            0 \<le> spec_grid_index 64 4096 (iu ! k) (iv ! k) du dv \<and>
            spec_grid_index 64 4096 (iu ! k) (iv ! k) du dv < 4096 * 4096)"
    by blast
  from a [rule_format, of 0] have a0: "64 \<le> iu ! 0" "iu ! 0 < 4096 - 64" "64 \<le> iv ! 0"
    "iv ! 0 < 4096 - 64"
    and g0: "\<forall>du dv. 0 \<le> du \<and> du \<le> 2 * 64 \<and> 0 \<le> dv \<and> dv \<le> 2 * 64 \<longrightarrow>
            0 \<le> grid_index 64 4096 (iu ! 0) (iv ! 0) du dv \<and>
            grid_index 64 4096 (iu ! 0) (iv ! 0) du dv < 4096 * 4096 \<and>
            0 \<le> spec_grid_index 64 4096 (iu ! 0) (iv ! 0) du dv \<and>
            spec_grid_index 64 4096 (iu ! 0) (iv ! 0) du dv < 4096 * 4096"
    by simp_all
  from a [rule_format, of 1] have a1: "64 \<le> iu ! 1" "iu ! 1 < 4096 - 64" "64 \<le> iv ! 1"
    "iv ! 1 < 4096 - 64"
    by simp_all
  from g0 [rule_format, of 128 128]
  have g: "0 \<le> grid_index 64 4096 (iu ! 0) (iv ! 0) 128 128"
    "grid_index 64 4096 (iu ! 0) (iv ! 0) 128 128 < 4096 * 4096"
    by simp_all
  from h c r a0 a1 g show ?thesis by blast
qed

section \<open>Properties that depend on the rounding\<close>

subsection \<open>Rounding is monotone\<close>

lemma bit_width_nonneg: "0 \<le> bit_width n"
  by (induction n rule: bit_width.induct) (simp add: bit_width.simps)

lemma bit_width_bounds:
  "0 < n \<Longrightarrow> 2 ^ nat (bit_width n - 1) \<le> n \<and> n < 2 ^ nat (bit_width n)"
proof (induction n rule: bit_width.induct)
  case (1 n)
  show ?case
  proof (cases "n = 1")
    case True
    have "bit_width 1 = 1"
      by (simp add: bit_width.simps [of 1] bit_width.simps [of 0])
    with True show ?thesis by simp
  next
    case False
    with 1(2) have h: "0 < n div 2" by simp
    from 1(2) have n: "\<not> n \<le> 0" by simp
    from 1(1) [OF n h] have IH: "2 ^ nat (bit_width (n div 2) - 1) \<le> n div 2"
      "n div 2 < 2 ^ nat (bit_width (n div 2))" by simp_all
    have b: "bit_width n = 1 + bit_width (n div 2)"
      using n by (simp add: bit_width.simps [of n])
    have pos: "1 \<le> bit_width (n div 2)"
      using h bit_width.simps [of "n div 2"] bit_width_nonneg [of "n div 2 div 2"] by simp
    have e1: "nat (bit_width n - 1) = Suc (nat (bit_width (n div 2) - 1))"
      using b pos by simp
    have e2: "nat (bit_width n) = Suc (nat (bit_width (n div 2)))"
      using b pos by simp
    have "2 * 2 ^ nat (bit_width (n div 2) - 1) \<le> 2 * (n div 2)" using IH(1) by simp
    also have "\<dots> \<le> n" by simp
    finally have A: "2 ^ nat (bit_width n - 1) \<le> n" unfolding e1 by simp
    have "n div 2 + 1 \<le> 2 ^ nat (bit_width (n div 2))" using IH(2) by simp
    hence "2 * (n div 2) + 2 \<le> 2 * 2 ^ nat (bit_width (n div 2))" by simp
    moreover have "n < 2 * (n div 2) + 2" by presburger
    ultimately have B: "n < 2 ^ nat (bit_width n)" unfolding e2 by simp
    from A B show ?thesis by simp
  qed
qed

lemma bit_width_pos: "0 < n \<Longrightarrow> 1 \<le> bit_width n"
  using bit_width.simps [of n] bit_width_nonneg [of "n div 2"] by simp

lemma pow2_powi: "pow2 e = 2 powi e"
  by (simp add: pow2_def power_int_def field_simps)

lemma pow2_pos: "0 < pow2 e"
  by (simp add: pow2_powi)

lemma pow2_add: "pow2 (a + b) = pow2 a * pow2 b"
  by (simp add: pow2_powi power_int_add)

lemma pow2_diff: "pow2 (a - b) = pow2 a / pow2 b"
  by (simp add: pow2_powi power_int_diff)

lemma pow2_mono: "a \<le> b \<Longrightarrow> pow2 a \<le> pow2 b"
  by (simp add: pow2_powi power_int_increasing)

lemma pow2_nat: "0 \<le> e \<Longrightarrow> pow2 e = real_of_int (2 ^ nat e)"
  by (simp add: pow2_def)

lemma binade_bounds:
  assumes "x \<noteq> 0"
  shows "pow2 (binade x) \<le> \<bar>x\<bar>" "\<bar>x\<bar> < pow2 (binade x + 1)"
proof -
  have "pow2 (binade x) \<le> \<bar>x\<bar> \<and> \<bar>x\<bar> < pow2 (binade x + 1)"
  proof (cases "1 \<le> \<bar>x\<bar>")
    case True
    define n where "n = \<lfloor>\<bar>x\<bar>\<rfloor>"
    have n: "0 < n" using True by (simp add: n_def)
    have b: "binade x = bit_width n - 1" using True by (simp add: binade_def n_def)
    have w: "1 \<le> bit_width n" using n by (rule bit_width_pos)
    from bit_width_bounds [OF n] have
      lo: "2 ^ nat (bit_width n - 1) \<le> n" and hi: "n < 2 ^ nat (bit_width n)" by simp_all
    have "pow2 (binade x) = real_of_int (2 ^ nat (bit_width n - 1))"
      using w by (simp add: b pow2_nat)
    also have "\<dots> \<le> real_of_int n" using lo by (simp only: of_int_le_iff)
    also have "\<dots> \<le> \<bar>x\<bar>" by (simp add: n_def)
    finally have A: "pow2 (binade x) \<le> \<bar>x\<bar>" .
    have "n + 1 \<le> 2 ^ nat (bit_width n)" using hi by simp
    hence "real_of_int (n + 1) \<le> real_of_int (2 ^ nat (bit_width n))"
      by (simp only: of_int_le_iff)
    moreover have "\<bar>x\<bar> < real_of_int (n + 1)" by (simp add: n_def)
    moreover have "pow2 (binade x + 1) = real_of_int (2 ^ nat (bit_width n))"
      using w by (simp add: b pow2_nat)
    ultimately have B: "\<bar>x\<bar> < pow2 (binade x + 1)" by simp
    from A B show ?thesis ..
  next
    case False
    define y where "y = 1 / \<bar>x\<bar>"
    define m where "m = \<lceil>y\<rceil> - 1"
    have x: "0 < \<bar>x\<bar>" "\<bar>x\<bar> < 1" using assms False by simp_all
    have y: "1 < y" using x by (simp add: y_def)
    have m: "0 < m" using y by (simp add: m_def)
    have my: "real_of_int m < y" "y \<le> real_of_int m + 1"
      unfolding m_def by linarith+
    have b: "binade x = - bit_width m" using False by (simp add: binade_def m_def y_def)
    have w: "1 \<le> bit_width m" using m by (rule bit_width_pos)
    from bit_width_bounds [OF m] have
      lo: "2 ^ nat (bit_width m - 1) \<le> m" and hi: "m < 2 ^ nat (bit_width m)" by simp_all
    have "m + 1 \<le> 2 ^ nat (bit_width m)" using hi by simp
    hence "real_of_int (m + 1) \<le> real_of_int (2 ^ nat (bit_width m))"
      by (simp only: of_int_le_iff)
    hence "y \<le> 2 ^ nat (bit_width m)" using my(2) by simp
    hence "1 / \<bar>x\<bar> \<le> 2 ^ nat (bit_width m)" by (simp add: y_def)
    hence "1 \<le> 2 ^ nat (bit_width m) * \<bar>x\<bar>" using x(1) by (simp add: field_simps)
    hence "1 / 2 ^ nat (bit_width m) \<le> \<bar>x\<bar>" by (simp add: field_simps)
    moreover have "pow2 (binade x) = 1 / 2 ^ nat (bit_width m)"
      using w by (simp add: b pow2_def)
    ultimately have A: "pow2 (binade x) \<le> \<bar>x\<bar>" by simp
    have "real_of_int (2 ^ nat (bit_width m - 1)) \<le> real_of_int m"
      using lo by (simp only: of_int_le_iff)
    hence "real_of_int (2 ^ nat (bit_width m - 1)) < y" using my(1) by linarith
    hence "2 ^ nat (bit_width m - 1) < y" by simp
    hence "2 ^ nat (bit_width m - 1) < 1 / \<bar>x\<bar>" by (simp add: y_def)
    hence "2 ^ nat (bit_width m - 1) * \<bar>x\<bar> < 1" using x(1) by (simp add: field_simps)
    hence "\<bar>x\<bar> < 1 / 2 ^ nat (bit_width m - 1)" by (simp add: field_simps)
    moreover have "pow2 (binade x + 1) = 1 / 2 ^ nat (bit_width m - 1)"
    proof (cases "bit_width m = 1")
      case True
      thus ?thesis by (simp add: b pow2_def)
    next
      case False
      hence "- bit_width m + 1 < 0" using w by simp
      moreover have "nat (- (- bit_width m + 1)) = nat (bit_width m - 1)" by simp
      ultimately show ?thesis by (simp add: b pow2_def)
    qed
    ultimately have B: "\<bar>x\<bar> < pow2 (binade x + 1)" by simp
    from A B show ?thesis ..
  qed
  thus "pow2 (binade x) \<le> \<bar>x\<bar>" "\<bar>x\<bar> < pow2 (binade x + 1)" by simp_all
qed

lemma round_even_of_int: "round_even (real_of_int k) = k"
  by (simp add: round_even_def)

lemma round_even_bounds: "\<lfloor>x\<rfloor> \<le> round_even x" "round_even x \<le> \<lfloor>x\<rfloor> + 1"
  by (simp_all add: round_even_def Let_def)

lemma round_even_mono:
  assumes "x \<le> y"
  shows "round_even x \<le> round_even y"
proof (cases "\<lfloor>x\<rfloor> = \<lfloor>y\<rfloor>")
  case True
  have "x - real_of_int \<lfloor>y\<rfloor> \<le> y - real_of_int \<lfloor>y\<rfloor>" using assms by simp
  thus ?thesis unfolding round_even_def Let_def True by auto
next
  case False
  have "\<lfloor>x\<rfloor> \<le> \<lfloor>y\<rfloor>" using assms by (rule floor_mono)
  with False have "\<lfloor>x\<rfloor> + 1 \<le> \<lfloor>y\<rfloor>" by simp
  with round_even_bounds(2) [of x] round_even_bounds(1) [of y] show ?thesis by linarith
qed

lemma round_even_minus: "round_even (- x) = - round_even x"
proof (cases "x = real_of_int \<lfloor>x\<rfloor>")
  case True
  then obtain k where k: "x = real_of_int k" ..
  have "- x = real_of_int (- k)" by (simp add: k)
  hence "round_even (- x) = - k" by (simp only: round_even_of_int)
  thus ?thesis by (simp add: k round_even_of_int)
next
  case False
  define n where "n = \<lfloor>x\<rfloor>"
  define r where "r = x - real_of_int n"
  have r: "0 < r" "r < 1" using False unfolding r_def n_def by linarith+
  have f: "\<lfloor>- x\<rfloor> = - n - 1"
  proof (rule floor_unique)
    show "real_of_int (- n - 1) \<le> - x" using r(2) by (simp add: r_def)
    show "- x < real_of_int (- n - 1) + 1" using r(1) by (simp add: r_def)
  qed
  have r': "- x - real_of_int (- n - 1) = 1 - r" by (simp add: r_def)
  have e: "even (- n - 1) \<longleftrightarrow> odd n" by simp
  have A: "round_even x = (if r < 1 / 2 then n else if 1 / 2 < r then n + 1
             else if even n then n else n + 1)"
    by (simp add: round_even_def Let_def n_def r_def)
  have B: "round_even (- x) = (if 1 - r < 1 / 2 then - n - 1 else if 1 / 2 < 1 - r then - n
             else if odd n then - n - 1 else - n)"
    unfolding round_even_def Let_def f r' e by simp
  show ?thesis unfolding A B using r by auto
qed

lemma binade_minus: "binade (- x) = binade x"
  by (simp add: binade_def)

lemma ieee_round_minus: "ieee_round p emin (- x) = - ieee_round p emin x"
  by (simp add: ieee_round_def Let_def binade_minus round_even_minus)

lemma ieee_round_0: "ieee_round p emin 0 = 0"
  by (simp add: ieee_round_def Let_def round_even_def)

lemma ieee_round_le_pow2:
  assumes "x \<le> pow2 m" "max (binade x) emin - int p + 1 \<le> m"
  shows "ieee_round p emin x \<le> pow2 m"
proof -
  define q where "q = max (binade x) emin - int p + 1"
  have d: "pow2 m / pow2 q = real_of_int (2 ^ nat (m - q))"
    using assms(2) by (simp add: q_def pow2_diff [symmetric] pow2_nat)
  have "x / pow2 q \<le> pow2 m / pow2 q"
    using assms(1) pow2_pos [of q] by (simp add: divide_right_mono)
  hence "round_even (x / pow2 q) \<le> round_even (real_of_int (2 ^ nat (m - q)))"
    unfolding d by (rule round_even_mono)
  hence "round_even (x / pow2 q) \<le> 2 ^ nat (m - q)"
    by (simp only: round_even_of_int)
  hence "real_of_int (round_even (x / pow2 q)) \<le> real_of_int (2 ^ nat (m - q))"
    by (simp only: of_int_le_iff)
  hence "real_of_int (round_even (x / pow2 q)) * pow2 q \<le> pow2 m / pow2 q * pow2 q"
    unfolding d using pow2_pos [of q] by (simp add: mult_right_mono)
  also have "\<dots> = pow2 m" using pow2_pos [of q] by simp
  finally show ?thesis by (simp add: ieee_round_def Let_def q_def)
qed

lemma ieee_round_ge_pow2:
  assumes "pow2 m \<le> x" "max (binade x) emin - int p + 1 \<le> m"
  shows "pow2 m \<le> ieee_round p emin x"
proof -
  define q where "q = max (binade x) emin - int p + 1"
  have d: "pow2 m / pow2 q = real_of_int (2 ^ nat (m - q))"
    using assms(2) by (simp add: q_def pow2_diff [symmetric] pow2_nat)
  have "pow2 m / pow2 q \<le> x / pow2 q"
    using assms(1) pow2_pos [of q] by (simp add: divide_right_mono)
  hence "round_even (real_of_int (2 ^ nat (m - q))) \<le> round_even (x / pow2 q)"
    unfolding d by (rule round_even_mono)
  hence "2 ^ nat (m - q) \<le> round_even (x / pow2 q)"
    by (simp only: round_even_of_int)
  hence "real_of_int (2 ^ nat (m - q)) \<le> real_of_int (round_even (x / pow2 q))"
    by (simp only: of_int_le_iff)
  hence "pow2 m / pow2 q * pow2 q \<le> real_of_int (round_even (x / pow2 q)) * pow2 q"
    unfolding d using pow2_pos [of q] by (simp add: mult_right_mono)
  moreover have "pow2 m / pow2 q * pow2 q = pow2 m" using pow2_pos [of q] by simp
  ultimately show ?thesis by (simp add: ieee_round_def Let_def q_def)
qed

lemma binade_mono:
  assumes "0 < x" "x \<le> y"
  shows "binade x \<le> binade y"
proof (rule ccontr)
  assume "\<not> binade x \<le> binade y"
  hence "binade y + 1 \<le> binade x" by simp
  hence "pow2 (binade y + 1) \<le> pow2 (binade x)" by (rule pow2_mono)
  also have "\<dots> \<le> \<bar>x\<bar>" using assms(1) binade_bounds(1) [of x] by simp
  also have "\<dots> \<le> \<bar>y\<bar>" using assms by simp
  also have "\<dots> < pow2 (binade y + 1)" using assms binade_bounds(2) [of y] by simp
  finally show False by simp
qed

lemma ieee_round_nonneg: "0 \<le> x \<Longrightarrow> 0 \<le> ieee_round p emin x"
proof -
  assume x: "0 \<le> x"
  define q where "q = max (binade x) emin - int p + 1"
  have "0 \<le> x / pow2 q" using x pow2_pos [of q] by simp
  hence "round_even (real_of_int 0) \<le> round_even (x / pow2 q)"
    by (intro round_even_mono) simp
  hence "0 \<le> round_even (x / pow2 q)" by (simp only: round_even_of_int)
  thus ?thesis using pow2_pos [of q] by (simp add: ieee_round_def Let_def q_def)
qed

lemma ieee_round_mono_pos:
  assumes p: "0 < p" and x: "0 < x" and xy: "x \<le> y"
  shows "ieee_round p emin x \<le> ieee_round p emin y"
proof -
  define qx where "qx = max (binade x) emin - int p + 1"
  define qy where "qy = max (binade y) emin - int p + 1"
  have b: "binade x \<le> binade y" using x xy by (rule binade_mono)
  hence q: "qx \<le> qy" by (simp add: qx_def qy_def)
  show ?thesis
  proof (cases "qx = qy")
    case True
    have "x / pow2 qx \<le> y / pow2 qx" using xy pow2_pos [of qx] by (simp add: divide_right_mono)
    hence "round_even (x / pow2 qx) \<le> round_even (y / pow2 qx)" by (rule round_even_mono)
    hence "real_of_int (round_even (x / pow2 qx)) * pow2 qx
             \<le> real_of_int (round_even (y / pow2 qx)) * pow2 qx"
      using pow2_pos [of qx] by (simp add: mult_right_mono)
    thus ?thesis
      using True by (simp add: ieee_round_def Let_def qx_def qy_def)
  next
    case False
    with q have lt: "qx < qy" by simp
    hence by1: "emin < binade y" "binade x < binade y"
      by (auto simp: qx_def qy_def max_def split: if_splits)
    hence qy': "qy \<le> binade y" using p by (simp add: qy_def)
    have y: "0 < y" using x xy by simp
    have ly: "pow2 (binade y) \<le> y" using y binade_bounds(1) [of y] by simp
    have L: "pow2 (binade y) \<le> ieee_round p emin y"
      using ly qy' unfolding qy_def by (rule ieee_round_ge_pow2)
    have "x < pow2 (binade x + 1)" using x binade_bounds(2) [of x] by simp
    moreover have "pow2 (binade x + 1) \<le> pow2 (binade y)" using by1(2) by (simp add: pow2_mono)
    ultimately have ux: "x \<le> pow2 (binade y)" using x by simp
    have "qx \<le> binade y" using lt qy' by simp
    hence U: "ieee_round p emin x \<le> pow2 (binade y)"
      using ux unfolding qx_def by (intro ieee_round_le_pow2)
    from U L show ?thesis by simp
  qed
qed

lemma ieee_round_mono:
  assumes p: "0 < p" and xy: "x \<le> y"
  shows "ieee_round p emin x \<le> ieee_round p emin y"
proof -
  consider "0 < x" | "x \<le> 0" "0 \<le> y" | "y < 0" by linarith
  thus ?thesis
  proof cases
    case 1
    thus ?thesis using p xy by (intro ieee_round_mono_pos)
  next
    case 2
    have "0 \<le> ieee_round p emin (- x)" using 2(1) by (intro ieee_round_nonneg) simp
    hence "ieee_round p emin x \<le> 0" by (simp add: ieee_round_minus)
    moreover have "0 \<le> ieee_round p emin y" using 2(2) by (rule ieee_round_nonneg)
    ultimately show ?thesis by simp
  next
    case 3
    have "ieee_round p emin (- y) \<le> ieee_round p emin (- x)"
      using p 3 xy by (intro ieee_round_mono_pos) simp_all
    thus ?thesis by (simp add: ieee_round_minus)
  qed
qed

lemma double_round_mono: "x \<le> y \<Longrightarrow> double_round x \<le> double_round y"
  unfolding double_round_def by (rule ieee_round_mono) simp

lemma float_round_mono: "x \<le> y \<Longrightarrow> float_round x \<le> float_round y"
  unfolding float_round_def by (rule ieee_round_mono) simp

lemma double_round_minus: "double_round (- x) = - double_round x"
  unfolding double_round_def by (rule ieee_round_minus)

lemma float_round_minus: "float_round (- x) = - float_round x"
  unfolding float_round_def by (rule ieee_round_minus)

lemma double_round_0: "double_round 0 = 0"
  unfolding double_round_def by (rule ieee_round_0)

lemma float_round_0: "float_round 0 = 0"
  unfolding float_round_def by (rule ieee_round_0)

lemma double_round_1: "double_round 1 = 1"
  by code_simp

lemma float_round_1: "float_round 1 = 1"
  by code_simp

lemma float_round_sat: "float_round (16777216 + 1) = 16777216"
  by code_simp

lemma double_round_nonneg: "0 \<le> x \<Longrightarrow> 0 \<le> double_round x"
  unfolding double_round_def by (rule ieee_round_nonneg)

lemma float_round_nonneg: "0 \<le> x \<Longrightarrow> 0 \<le> float_round x"
  unfolding float_round_def by (rule ieee_round_nonneg)

lemma double_round_unit: "\<bar>x\<bar> \<le> 1 \<Longrightarrow> \<bar>double_round x\<bar> \<le> 1"
proof -
  assume "\<bar>x\<bar> \<le> 1"
  hence x: "- 1 \<le> x" "x \<le> 1" by simp_all
  have "double_round (- 1) \<le> double_round x" using x(1) by (rule double_round_mono)
  moreover have "double_round x \<le> double_round 1" using x(2) by (rule double_round_mono)
  ultimately show ?thesis by (simp add: double_round_minus double_round_1)
qed

lemma float_round_unit: "\<bar>x\<bar> \<le> 1 \<Longrightarrow> \<bar>float_round x\<bar> \<le> 1"
proof -
  assume "\<bar>x\<bar> \<le> 1"
  hence x: "- 1 \<le> x" "x \<le> 1" by simp_all
  have "float_round (- 1) \<le> float_round x" using x(1) by (rule float_round_mono)
  moreover have "float_round x \<le> float_round 1" using x(2) by (rule float_round_mono)
  ultimately show ?thesis by (simp add: float_round_minus float_round_1)
qed

subsection \<open>The loops of \<^verbatim>\<open>initC\<close> in closed form\<close>

lemma upto_map_int: "[0..int n - 1] = map int [0..<n]"
proof (induction n)
  case 0
  show ?case by simp
next
  case (Suc n)
  have "[0..int (Suc n) - 1] = [0..int n - 1] @ [int n]"
    using upto_rec2 [of 0 "int n"] by simp
  thus ?case using Suc by simp
qed

lemma foldl_nth_all:
  "foldl (\<lambda>s i. h s (C ! nat i)) a [0..int (length C) - 1] = foldl h a C"
proof -
  have "foldl (\<lambda>s i. h s (C ! nat i)) a [0..int (length C) - 1]
          = foldl h a (map ((!) C) [0..<length C])"
    by (simp add: upto_map_int foldl_map)
  thus ?thesis by (simp add: map_nth)
qed

lemma foldl_update_take:
  "n \<le> length C \<Longrightarrow>
     foldl (\<lambda>C i. C[i := g (C ! i)]) C [0..<n] = map g (take n C) @ drop n C"
proof (induction n)
  case 0
  show ?case by simp
next
  case (Suc n)
  hence n: "n < length C" by simp
  have IH: "foldl (\<lambda>C i. C[i := g (C ! i)]) C [0..<n] = map g (take n C) @ drop n C"
    using Suc by simp
  have d: "drop n C = C ! n # drop (Suc n) C" using n by (simp add: Cons_nth_drop_Suc)
  have l: "length (map g (take n C)) = n" using n by simp
  have "(map g (take n C) @ drop n C) ! n = C ! n"
    using l by (metis d nth_append_length)
  moreover have "(map g (take n C) @ drop n C)[n := v] = map g (take n C) @ v # drop (Suc n) C" for v
    using l d by (metis list_update_length)
  ultimately have "foldl (\<lambda>C i. C[i := g (C ! i)]) C [0..<Suc n]
      = map g (take n C) @ g (C ! n) # drop (Suc n) C"
    by (simp add: IH)
  also have "\<dots> = map g (take (Suc n) C) @ drop (Suc n) C"
    using n by (simp add: take_Suc_conv_app_nth)
  finally show ?case .
qed

lemma foldl_update_all:
  "foldl (\<lambda>C i. C[nat i := g (C ! nat i)]) C [0..int (length C) - 1] = map g C"
proof -
  have "foldl (\<lambda>C i. C[nat i := g (C ! nat i)]) C [0..int (length C) - 1]
          = foldl (\<lambda>C i. C[i := g (C ! i)]) C [0..<length C]"
    by (simp add: upto_map_int foldl_map)
  thus ?thesis by (simp add: foldl_update_take)
qed

lemma block_fill_update:
  assumes "0 \<le> c"
  shows "block_fill (\<lambda>C. C[nat c := v]) n c 1 (\<lambda>q. v)"
  unfolding block_fill_def
proof (intro allI impI conjI)
  fix C :: "'a list" and p
  assume C: "length C = n" and p: "0 \<le> p \<and> p < int n"
  have e: "nat c = nat p \<longleftrightarrow> c = p" using assms p by auto
  have l: "nat p < length C" using C p by linarith
  have "C[nat c := v] ! nat p = (if c = p then v else C ! nat p)"
    using l e by (simp add: nth_list_update)
  moreover have "c \<le> p \<and> p < c + 1 \<longleftrightarrow> c = p" by auto
  ultimately show "C[nat c := v] ! nat p = (if c \<le> p \<and> p < c + 1 then v else C ! nat p)"
    by simp
qed simp

lemma block_fill_foldl_nat:
  assumes B: "0 \<le> B"
    and step: "\<And>i. 0 \<le> i \<Longrightarrow> i < M \<Longrightarrow> block_fill (\<lambda>C. F C i) n (b + i * B) B (val i)"
  shows "int m \<le> M \<Longrightarrow>
           block_fill (\<lambda>C. foldl F C [0..int m - 1]) n b (int m * B) (\<lambda>q. val (q div B) (q mod B))"
proof (induction m)
  case 0
  show ?case by (auto simp: block_fill_def)
next
  case (Suc m)
  hence IH: "block_fill (\<lambda>C. foldl F C [0..int m - 1]) n b (int m * B)
               (\<lambda>q. val (q div B) (q mod B))"
    by simp
  have m: "0 \<le> int m" "int m < M" using Suc(2) by simp_all
  note st = step [OF m]
  have u: "[0..int (Suc m) - 1] = [0..int m - 1] @ [int m]"
    using upto_rec2 [of 0 "int m"] by simp
  show ?case
    unfolding block_fill_def
  proof (intro allI impI)
    fix C :: "'a list"
    assume C: "length C = n"
    define C' where "C' = foldl F C [0..int m - 1]"
    have C': "length C' = n"
      and C'p: "\<And>p. 0 \<le> p \<Longrightarrow> p < int n \<Longrightarrow>
              C' ! nat p = (if b \<le> p \<and> p < b + int m * B then val ((p - b) div B) ((p - b) mod B)
                            else C ! nat p)"
      using IH C unfolding block_fill_def C'_def by simp_all
    have f: "foldl F C [0..int (Suc m) - 1] = F C' (int m)"
      unfolding u C'_def by simp
    have F1: "length (F C' (int m)) = n"
      and Fp: "\<And>p. 0 \<le> p \<Longrightarrow> p < int n \<Longrightarrow>
              F C' (int m) ! nat p =
                (if b + int m * B \<le> p \<and> p < b + int m * B + B then val (int m) (p - (b + int m * B))
                 else C' ! nat p)"
      using st C' unfolding block_fill_def by simp_all
    have "F C' (int m) ! nat p =
            (if b \<le> p \<and> p < b + int (Suc m) * B then val ((p - b) div B) ((p - b) mod B)
             else C ! nat p)"
      if p: "0 \<le> p \<and> p < int n" for p
    proof (cases "b + int m * B \<le> p \<and> p < b + int m * B + B")
      case True
      hence Bpos: "0 < B" by simp
      have r: "0 \<le> p - b - int m * B" "p - b - int m * B < B" using True by simp_all
      have dm: "(p - b) div B = int m \<and> (p - b) mod B = p - b - int m * B"
      proof -
        have e: "p - b = B * int m + (p - b - int m * B)" by simp
        have "(p - b) div B = int m"
          using e r by (rule int_div_pos_eq)
        moreover have "(p - b) mod B = p - b - int m * B"
          using e r by (rule int_mod_pos_eq)
        ultimately show ?thesis ..
      qed
      have mB: "0 \<le> int m * B" using B by simp
      have "b \<le> p" using True mB by linarith
      moreover have "b + int (Suc m) * B = b + int m * B + B" by (simp add: algebra_simps)
      ultimately have in_range: "b \<le> p \<and> p < b + int (Suc m) * B"
        using True by simp
      have "F C' (int m) ! nat p = val (int m) (p - (b + int m * B))"
        using Fp [of p] p True by simp
      also have "p - (b + int m * B) = (p - b) mod B" using dm by simp
      also have "val (int m) ((p - b) mod B) = val ((p - b) div B) ((p - b) mod B)"
        using dm by simp
      finally show ?thesis using in_range by simp
    next
      case False
      have "(b \<le> p \<and> p < b + int (Suc m) * B) \<longleftrightarrow> (b \<le> p \<and> p < b + int m * B)"
        using False B by (auto simp: algebra_simps)
      thus ?thesis using Fp [of p] C'p [of p] p False by simp
    qed
    thus "length (foldl F C [0..int (Suc m) - 1]) = n \<and>
          (\<forall>p. 0 \<le> p \<and> p < int n \<longrightarrow>
             foldl F C [0..int (Suc m) - 1] ! nat p =
               (if b \<le> p \<and> p < b + int (Suc m) * B then val ((p - b) div B) ((p - b) mod B)
                else C ! nat p))"
      unfolding f using F1 by simp
  qed
qed

lemma block_fill_foldl:
  assumes "0 \<le> B" "0 \<le> M"
    and "\<And>i. 0 \<le> i \<Longrightarrow> i < M \<Longrightarrow> block_fill (\<lambda>C. F C i) n (b + i * B) B (val i)"
  shows "block_fill (\<lambda>C. foldl F C [0..M - 1]) n b (M * B) (\<lambda>q. val (q div B) (q mod B))"
  using block_fill_foldl_nat [of B M F n b val "nat M", OF assms(1) assms(3)] assms(2) by simp

lemma initC_fill_float_block:
  assumes S: "0 \<le> sSize" and O: "0 \<le> overSample" and W: "0 \<le> wSize"
  shows "block_fill (initC_fill_float freq cellSize wCellSize wSize overSample sSize) n 0
           (wSize * (overSample * (overSample * (sSize * sSize))))
           (initC_entry_float freq cellSize wCellSize wSize overSample sSize)"
proof -
  define V where "V = initC_value_float freq cellSize wCellSize wSize overSample (c_div (sSize - 1) 2)"
  have L5: "block_fill
      (\<lambda>C. foldl (\<lambda>C i.
          C[nat (i + sSize * (j + sSize * (osi + overSample * (osj + overSample * k)))) :=
              V k osj osi j i]) C [0..sSize - 1]) n
      (sSize * sSize * (osi + overSample * (osj + overSample * k)) + j * sSize) (sSize * 1)
      (\<lambda>q. V k osj osi j (q div 1))"
    if "0 \<le> k" "0 \<le> osj" "0 \<le> osi" "0 \<le> j" for k osj osi j
  proof (rule block_fill_foldl [where val = "\<lambda>i q. V k osj osi j i"])
    fix i :: int
    assume i: "0 \<le> i" "i < sSize"
    have nn: "0 \<le> sSize * (j + sSize * (osi + overSample * (osj + overSample * k)))"
      using S O that by simp
    have e: "sSize * sSize * (osi + overSample * (osj + overSample * k)) + j * sSize + i * 1
               = i + sSize * (j + sSize * (osi + overSample * (osj + overSample * k)))"
      by (simp add: algebra_simps)
    show "block_fill
       (\<lambda>C. C[nat (i + sSize * (j + sSize * (osi + overSample * (osj + overSample * k)))) :=
                V k osj osi j i]) n
       (sSize * sSize * (osi + overSample * (osj + overSample * k)) + j * sSize + i * 1) 1
       (\<lambda>q. V k osj osi j i)"
      unfolding e using i(1) nn by (intro block_fill_update) simp
  qed (use S in simp_all)
  have L4: "block_fill
      (\<lambda>C. foldl (\<lambda>C j. foldl (\<lambda>C i.
          C[nat (i + sSize * (j + sSize * (osi + overSample * (osj + overSample * k)))) :=
              V k osj osi j i]) C [0..sSize - 1]) C [0..sSize - 1]) n
      (sSize * sSize * overSample * (osj + overSample * k) + osi * (sSize * sSize)) (sSize * sSize)
      (\<lambda>q. V k osj osi (q div sSize) (q mod sSize))"
    if "0 \<le> k" "0 \<le> osj" "0 \<le> osi" for k osj osi
  proof (rule block_fill_foldl [where val = "\<lambda>j q. V k osj osi j q"])
    fix j :: int
    assume j: "0 \<le> j" "j < sSize"
    have e: "sSize * sSize * overSample * (osj + overSample * k) + osi * (sSize * sSize) + j * sSize
               = sSize * sSize * (osi + overSample * (osj + overSample * k)) + j * sSize"
      by (simp add: algebra_simps)
    show "block_fill
       (\<lambda>C. foldl (\<lambda>C i.
          C[nat (i + sSize * (j + sSize * (osi + overSample * (osj + overSample * k)))) :=
              V k osj osi j i]) C [0..sSize - 1]) n
       (sSize * sSize * overSample * (osj + overSample * k) + osi * (sSize * sSize) + j * sSize)
       sSize (\<lambda>q. V k osj osi j q)"
      unfolding e using L5 [OF that j(1)] by simp
  qed (use S in simp_all)
  have L3: "block_fill
      (\<lambda>C. foldl (\<lambda>C osi. foldl (\<lambda>C j. foldl (\<lambda>C i.
          C[nat (i + sSize * (j + sSize * (osi + overSample * (osj + overSample * k)))) :=
              V k osj osi j i]) C [0..sSize - 1]) C [0..sSize - 1]) C [0..overSample - 1]) n
      (k * (overSample * (overSample * (sSize * sSize))) + osj * (overSample * (sSize * sSize)))
      (overSample * (sSize * sSize))
      (\<lambda>q. V k osj (q div (sSize * sSize)) (q mod (sSize * sSize) div sSize)
             (q mod (sSize * sSize) mod sSize))"
    if "0 \<le> k" "0 \<le> osj" for k osj
  proof (rule block_fill_foldl
      [where val = "\<lambda>osi q. V k osj osi (q div sSize) (q mod sSize)"])
    fix osi :: int
    assume osi: "0 \<le> osi" "osi < overSample"
    have e: "k * (overSample * (overSample * (sSize * sSize))) + osj * (overSample * (sSize * sSize))
               + osi * (sSize * sSize)
             = sSize * sSize * overSample * (osj + overSample * k) + osi * (sSize * sSize)"
      by (simp add: algebra_simps)
    show "block_fill
       (\<lambda>C. foldl (\<lambda>C j. foldl (\<lambda>C i.
          C[nat (i + sSize * (j + sSize * (osi + overSample * (osj + overSample * k)))) :=
              V k osj osi j i]) C [0..sSize - 1]) C [0..sSize - 1]) n
       (k * (overSample * (overSample * (sSize * sSize))) + osj * (overSample * (sSize * sSize))
          + osi * (sSize * sSize))
       (sSize * sSize) (\<lambda>q. V k osj osi (q div sSize) (q mod sSize))"
      unfolding e using L4 [OF that osi(1)] .
  qed (use S O in simp_all)
  have L2: "block_fill
      (\<lambda>C. foldl (\<lambda>C osj. foldl (\<lambda>C osi. foldl (\<lambda>C j. foldl (\<lambda>C i.
          C[nat (i + sSize * (j + sSize * (osi + overSample * (osj + overSample * k)))) :=
              V k osj osi j i]) C [0..sSize - 1]) C [0..sSize - 1]) C [0..overSample - 1])
          C [0..overSample - 1]) n
      (0 + k * (overSample * (overSample * (sSize * sSize))))
      (overSample * (overSample * (sSize * sSize)))
      (\<lambda>q. V k (q div (overSample * (sSize * sSize)))
             (q mod (overSample * (sSize * sSize)) div (sSize * sSize))
             (q mod (overSample * (sSize * sSize)) mod (sSize * sSize) div sSize)
             (q mod (overSample * (sSize * sSize)) mod (sSize * sSize) mod sSize))"
    if "0 \<le> k" for k
  proof (rule block_fill_foldl
      [where val = "\<lambda>osj q. V k osj (q div (sSize * sSize)) (q mod (sSize * sSize) div sSize)
             (q mod (sSize * sSize) mod sSize)"])
    fix osj :: int
    assume osj: "0 \<le> osj" "osj < overSample"
    show "block_fill
       (\<lambda>C. foldl (\<lambda>C osi. foldl (\<lambda>C j. foldl (\<lambda>C i.
          C[nat (i + sSize * (j + sSize * (osi + overSample * (osj + overSample * k)))) :=
              V k osj osi j i]) C [0..sSize - 1]) C [0..sSize - 1]) C [0..overSample - 1]) n
       (0 + k * (overSample * (overSample * (sSize * sSize))) + osj * (overSample * (sSize * sSize)))
       (overSample * (sSize * sSize))
       (\<lambda>q. V k osj (q div (sSize * sSize)) (q mod (sSize * sSize) div sSize)
               (q mod (sSize * sSize) mod sSize))"
      using L3 [OF that osj(1)] by simp
  qed (use S O in simp_all)
  have L1: "block_fill
      (\<lambda>C. foldl (\<lambda>C k. foldl (\<lambda>C osj. foldl (\<lambda>C osi. foldl (\<lambda>C j. foldl (\<lambda>C i.
          C[nat (i + sSize * (j + sSize * (osi + overSample * (osj + overSample * k)))) :=
              V k osj osi j i]) C [0..sSize - 1]) C [0..sSize - 1]) C [0..overSample - 1])
          C [0..overSample - 1]) C [0..wSize - 1]) n
      0 (wSize * (overSample * (overSample * (sSize * sSize))))
      (\<lambda>q. V (q div (overSample * (overSample * (sSize * sSize))))
             (q mod (overSample * (overSample * (sSize * sSize))) div (overSample * (sSize * sSize)))
             (q mod (overSample * (overSample * (sSize * sSize))) mod (overSample * (sSize * sSize))
                div (sSize * sSize))
             (q mod (overSample * (overSample * (sSize * sSize))) mod (overSample * (sSize * sSize))
                mod (sSize * sSize) div sSize)
             (q mod (overSample * (overSample * (sSize * sSize))) mod (overSample * (sSize * sSize))
                mod (sSize * sSize) mod sSize))"
    by (rule block_fill_foldl
      [where val = "\<lambda>k q. V k (q div (overSample * (sSize * sSize)))
             (q mod (overSample * (sSize * sSize)) div (sSize * sSize))
             (q mod (overSample * (sSize * sSize)) mod (sSize * sSize) div sSize)
             (q mod (overSample * (sSize * sSize)) mod (sSize * sSize) mod sSize)"])
       (use S O W L2 in simp_all)
  have f: "initC_fill_float freq cellSize wCellSize wSize overSample sSize =
      (\<lambda>C. foldl (\<lambda>C k. foldl (\<lambda>C osj. foldl (\<lambda>C osi. foldl (\<lambda>C j. foldl (\<lambda>C i.
          C[nat (i + sSize * (j + sSize * (osi + overSample * (osj + overSample * k)))) :=
              V k osj osi j i]) C [0..sSize - 1]) C [0..sSize - 1]) C [0..overSample - 1])
          C [0..overSample - 1]) C [0..wSize - 1])"
    by (rule ext) (simp add: initC_fill_float_def V_def Let_def)
  have g: "initC_entry_float freq cellSize wCellSize wSize overSample sSize =
      (\<lambda>q. V (q div (overSample * (overSample * (sSize * sSize))))
             (q mod (overSample * (overSample * (sSize * sSize))) div (overSample * (sSize * sSize)))
             (q mod (overSample * (overSample * (sSize * sSize))) mod (overSample * (sSize * sSize))
                div (sSize * sSize))
             (q mod (overSample * (overSample * (sSize * sSize))) mod (overSample * (sSize * sSize))
                mod (sSize * sSize) div sSize)
             (q mod (overSample * (overSample * (sSize * sSize))) mod (overSample * (sSize * sSize))
                mod (sSize * sSize) mod sSize))"
    by (rule ext) (simp add: initC_entry_float_def V_def Let_def)
  show ?thesis unfolding f g by (rule L1)
qed

lemma initC_fill_float_length:
  assumes "0 \<le> sSize" "0 \<le> overSample" "0 \<le> wSize"
  shows "length (initC_fill_float freq cellSize wCellSize wSize overSample sSize (replicate m 0)) = m"
proof -
  have l: "length (replicate m (0 :: complex)) = m" by simp
  from initC_fill_float_block [OF assms, of freq cellSize wCellSize m, unfolded block_fill_def,
      rule_format, OF l]
  show ?thesis by simp
qed

lemma initC_fill_float_nth:
  assumes "0 \<le> sSize" "0 \<le> overSample" "0 \<le> wSize"
    and "n = sSize * sSize * overSample * overSample * wSize" "0 \<le> p" "p < n"
  shows "initC_fill_float freq cellSize wCellSize wSize overSample sSize (replicate (nat n) 0) ! nat p
           = initC_entry_float freq cellSize wCellSize wSize overSample sSize p"
proof -
  have e: "wSize * (overSample * (overSample * (sSize * sSize))) = n"
    by (simp add: assms(4) algebra_simps)
  from initC_fill_float_block [OF assms(1,2,3), of freq cellSize wCellSize "nat n"]
  have b: "block_fill (initC_fill_float freq cellSize wCellSize wSize overSample sSize) (nat n) 0 n
             (initC_entry_float freq cellSize wCellSize wSize overSample sSize)"
    unfolding e .
  have l: "length (replicate (nat n) (0 :: complex)) = nat n" by simp
  from b [unfolded block_fill_def, rule_format, OF l]
  have B: "\<And>p. 0 \<le> p \<and> p < int (nat n) \<Longrightarrow>
       initC_fill_float freq cellSize wCellSize wSize overSample sSize (replicate (nat n) 0) ! nat p
         = (if 0 \<le> p \<and> p < 0 + n
            then initC_entry_float freq cellSize wCellSize wSize overSample sSize (p - 0)
            else replicate (nat n) 0 ! nat p)"
    by simp_all
  show ?thesis
    using B [of p] assms(5,6) by simp
qed

lemma initC_normalise_float_map:
  assumes "int (length C) = n" "initC_sumC n C \<noteq> 0"
    "int32 (wSize * overSample)" "int32 (wSize * overSample * overSample)"
  shows "initC_normalise_float wSize overSample n C =
           Some (map (\<lambda>z. float_times z (Complex (float_round
                   (float_round (real_of_int (wSize * overSample * overSample)) / initC_sumC n C)) 0))
                 C)"
proof -
  have "foldl (\<lambda>C i. C[nat i := float_times (C ! nat i) (Complex s 0)]) C [0..int (length C) - 1]
          = map (\<lambda>z. float_times z (Complex s 0)) C" for s
    by (rule foldl_update_all [where g = "\<lambda>z. float_times z (Complex s 0)"])
  thus ?thesis
    using assms(2,3,4) unfolding initC_normalise_float_def Let_def assms(1) [symmetric] by simp
qed

lemma initC_float_Some:
  assumes "initC_support_double freq cellSize baseline = Some support"
    and "initC_wCellSize_double freq baseline wSize = Some wCellSize"
    and "n = (2 * support + 1) * (2 * support + 1) * 8 * 8 * wSize" "0 \<le> n"
    and "list_all int32 [2 * support, 2 * support + 1, (2 * support + 1) * (2 * support + 1),
           (2 * support + 1) * (2 * support + 1) * 8, (2 * support + 1) * (2 * support + 1) * 8 * 8, n]"
    and "list_all (initC_plane_finite freq cellSize wCellSize wSize) [0..wSize - 1]"
    and "initC_normalise_float wSize 8 n
           (initC_fill_float freq cellSize wCellSize wSize 8 (2 * support + 1) (replicate (nat n) 0))
           = Some C"
  shows "initC_float freq cellSize baseline wSize = Some (support, 8, wCellSize, C)"
proof -
  have "initC_float freq cellSize baseline wSize =
      (if 0 \<le> n \<and> list_all int32 [2 * support, 2 * support + 1,
             (2 * support + 1) * (2 * support + 1), (2 * support + 1) * (2 * support + 1) * 8,
             (2 * support + 1) * (2 * support + 1) * 8 * 8, n] \<and>
          list_all (initC_plane_finite freq cellSize wCellSize wSize) [0..wSize - 1]
       then (case initC_normalise_float wSize 8 n
                   (initC_fill_float freq cellSize wCellSize wSize 8 (2 * support + 1)
                      (replicate (nat n) 0)) of
               None \<Rightarrow> None
             | Some C \<Rightarrow> Some (support, 8, wCellSize, C))
       else None)"
    unfolding initC_float_def assms(1,2)
    by (simp only: prod.case option.case Let_def assms(3) [symmetric])
  also have "\<dots> = Some (support, 8, wCellSize, C)"
    using assms(4) by (simp only: assms(5,6,7)) simp
  finally show ?thesis .
qed

lemma float_times_real:
  "float_times (Complex x 0) (Complex s 0) = Complex (float_round (float_round (x * s))) 0"
  by (simp add: float_times_def float_round_0)

subsection \<open>The normalisation in exact arithmetic\<close>

text \<open>
  With an exact sum the table is normalised: after the exact \<^verbatim>\<open>initC\<close> the magnitudes
  of the entries sum to \<open>wSize * overSample\<^sup>2\<close>, provided the entries were not all
  zero before.  This is what the two loops at the end of \<^verbatim>\<open>initC\<close> are there for.
\<close>

lemma foldl_add_cmod:
  "foldl (\<lambda>s z. s + cmod z) a C = a + sum_list (map cmod C)"
  by (induction C arbitrary: a) simp_all

lemma initC_normalise_map:
  assumes "int (length C) = n"
  shows "initC_normalise wSize overSample n C =
           map (\<lambda>z. z * of_real (real_of_int (wSize * overSample * overSample) /
                        sum_list (map cmod C))) C"
proof -
  have s: "foldl (\<lambda>s i. s + cmod (C ! nat i)) 0 [0..int (length C) - 1] = sum_list (map cmod C)"
    using foldl_nth_all [where h = "\<lambda>s z. s + cmod z" and C = C and a = 0]
    by (simp add: foldl_add_cmod)
  have u: "foldl (\<lambda>C i. C[nat i := C ! nat i * c]) C [0..int (length C) - 1] = map (\<lambda>z. z * c) C"
    for c :: complex
    by (rule foldl_update_all [where g = "\<lambda>z. z * c"])
  show ?thesis
    unfolding initC_normalise_def Let_def assms [symmetric] s by (rule u)
qed

lemma initC_normalise_exact:
  assumes "int (length C) = n" "sum_list (map cmod C) \<noteq> 0" "0 \<le> wSize * overSample * overSample"
  shows "sum_list (map cmod (initC_normalise wSize overSample n C))
           = real_of_int (wSize * overSample * overSample)"
proof -
  define S where "S = sum_list (map cmod C)"
  define c where "c = real_of_int (wSize * overSample * overSample) / S"
  have "0 \<le> S" unfolding S_def by (rule sum_list_nonneg) auto
  with assms(2) have S: "0 < S" by (simp add: S_def)
  have "0 \<le> real_of_int (wSize * overSample * overSample)"
    using assms(3) by (simp only: of_int_0_le_iff)
  hence c: "0 \<le> c" using S unfolding c_def by (intro divide_nonneg_pos)
  have "sum_list (map cmod (map (\<lambda>z. z * of_real c) C)) = c * S"
    using c by (simp add: S_def comp_def norm_mult sum_list_const_mult [symmetric] mult.commute)
  also have "\<dots> = real_of_int (wSize * overSample * overSample)" using S by (simp add: c_def)
  finally show ?thesis
    unfolding initC_normalise_map [OF assms(1)] c_def S_def .
qed

lemma initC_normalised_exact:
  assumes c: "initC freq cellSize baseline wSize = Some (support, overSample, wCellSize, C)"
    and w: "0 < wSize"
    and f: "sum_list (map cmod (initC_fill freq cellSize wCellSize wSize overSample (2 * support + 1)
              (replicate (length C) 0))) \<noteq> 0"
  shows "sum_list (map cmod C) / real_of_int (wSize * overSample\<^sup>2) = 1"
proof -
  define n where "n = (2 * support + 1) * (2 * support + 1) * 8 * 8 * wSize"
  note d = initC_SomeD [OF c]
  have os: "overSample = 8" by (rule d(6))
  have l: "int (length C) = n"
    using d(8) by (simp add: n_def os power2_eq_square algebra_simps)
  have n0: "0 \<le> n" using l by simp
  from c obtain s wc where s: "initC_support freq cellSize baseline = Some s"
    and wc: "initC_wCellSize freq baseline wSize = Some wc"
    by (auto simp: initC_def split: option.splits)
  from c s wc have r: "support = s" "wCellSize = wc"
    by (auto simp: initC_def Let_def split: if_splits)
  define F where "F = initC_fill freq cellSize wCellSize wSize 8 (2 * support + 1) (replicate (nat n) 0)"
  have C: "C = initC_normalise wSize 8 n F"
    using c s wc n0 unfolding initC_def Let_def F_def n_def r by (simp split: if_splits)
  have lF: "int (length F) = n" using n0 by (simp add: F_def initC_fill_length)
  have "length C = nat n" using l by simp
  hence fF: "sum_list (map cmod F) \<noteq> 0" using f by (simp add: F_def os)
  have "sum_list (map cmod C) = real_of_int (wSize * 8 * 8)"
    unfolding C using lF fF by (rule initC_normalise_exact) (use w in simp)
  thus ?thesis using w by (simp add: os)
qed

subsection \<open>The accumulated sum\<close>

text \<open>
  Every entry of the table has magnitude at most one, and a \<^verbatim>\<open>float\<close> that has
  reached \<open>2\<^sup>2\<^sup>4 = 16777216\<close> is not changed by the addition of a value up to one
  (\<open>16777217\<close> is halfway between two \<^verbatim>\<open>float\<close>s and rounds to the even one).
  Therefore \<^verbatim>\<open>sumC\<close> never exceeds \<open>16777216\<close>, for every configuration and however many
  entries the table has.
\<close>

lemma initC_r2_nonneg: "0 \<le> initC_r2 overSample cCenter osj osi j i"
  unfolding initC_r2_def Let_def
  by (intro double_round_nonneg add_nonneg_nonneg zero_le_power2)

lemma initC_value_float_unit:
  "Im (initC_value_float freq cellSize wCellSize wSize overSample cCenter k osj osi j i) = 0 \<and>
   \<bar>Re (initC_value_float freq cellSize wCellSize wSize overSample cCenter k osj osi j i)\<bar> \<le> 1"
proof -
  have c: "\<bar>float_round (double_round (cos t))\<bar> \<le> 1" for t
    by (intro float_round_unit double_round_unit) simp
  have "\<bar>exp (- initC_r2 overSample cCenter osj osi j i)\<bar> \<le> 1"
    using initC_r2_nonneg [of overSample cCenter osj osi j i] by simp
  hence e: "\<bar>float_round (double_round (exp (- initC_r2 overSample cCenter osj osi j i)))\<bar> \<le> 1"
    by (intro float_round_unit double_round_unit)
  show ?thesis
    using c e by (simp add: initC_value_float_def Let_def)
qed

lemma initC_sumC_foldl:
  "initC_sumC (int (length C)) C = foldl (\<lambda>s z. float_round (s + float_round (cmod z))) 0 C"
  unfolding initC_sumC_def
  by (rule foldl_nth_all [where h = "\<lambda>s z. float_round (s + float_round (cmod z))"])

lemma sumC_bounds:
  "0 \<le> s \<Longrightarrow> s \<le> 16777216 \<Longrightarrow> \<forall>z\<in>set C. cmod z \<le> 1 \<Longrightarrow>
     0 \<le> foldl (\<lambda>s z. float_round (s + float_round (cmod z))) s C \<and>
     foldl (\<lambda>s z. float_round (s + float_round (cmod z))) s C \<le> 16777216"
proof (induction C arbitrary: s)
  case Nil
  thus ?case by simp
next
  case (Cons z C)
  have z: "cmod z \<le> 1" using Cons(4) by simp
  have x0: "0 \<le> float_round (cmod z)" by (rule float_round_nonneg) simp
  have "float_round (cmod z) \<le> float_round 1" using z by (rule float_round_mono)
  hence x1: "float_round (cmod z) \<le> 1" by (simp add: float_round_1)
  have a: "0 \<le> float_round (s + float_round (cmod z))"
    using Cons(2) x0 by (intro float_round_nonneg) simp
  have "float_round (s + float_round (cmod z)) \<le> float_round (16777216 + 1)"
    using Cons(3) x1 by (intro float_round_mono) simp
  hence b: "float_round (s + float_round (cmod z)) \<le> 16777216"
    by (simp only: float_round_sat)
  from Cons(1) [OF a b] Cons(4) show ?case by simp
qed

lemma sumC_keeps:
  "c \<le> s \<Longrightarrow> float_round c = c \<Longrightarrow>
     c \<le> foldl (\<lambda>s z. float_round (s + float_round (cmod z))) s C"
proof (induction C arbitrary: s)
  case Nil
  thus ?case by simp
next
  case (Cons z C)
  have x0: "0 \<le> float_round (cmod z)" by (rule float_round_nonneg) simp
  have "float_round c \<le> float_round (s + float_round (cmod z))"
    using Cons(2) x0 by (intro float_round_mono) simp
  hence "c \<le> float_round (s + float_round (cmod z))" by (simp add: Cons(3))
  from Cons(1) [OF this Cons(3)] show ?case by simp
qed

lemma sumC_reaches:
  assumes "z \<in> set C" "c \<le> cmod z" "float_round c = c" "0 \<le> s"
    and "\<forall>z\<in>set C. cmod z \<le> 1" "s \<le> 16777216"
  shows "c \<le> foldl (\<lambda>s z. float_round (s + float_round (cmod z))) s C"
proof -
  from assms(1) obtain ys zs where C: "C = ys @ z # zs" by (meson split_list)
  define t where "t = foldl (\<lambda>s z. float_round (s + float_round (cmod z))) s ys"
  have "\<forall>z\<in>set ys. cmod z \<le> 1" using assms(5) C by simp
  from sumC_bounds [OF assms(4) assms(6) this] have t: "0 \<le> t" by (simp add: t_def)
  have "float_round c \<le> float_round (cmod z)" using assms(2) by (rule float_round_mono)
  hence "c \<le> float_round (cmod z)" by (simp add: assms(3))
  hence "c \<le> t + float_round (cmod z)" using t by simp
  hence "float_round c \<le> float_round (t + float_round (cmod z))" by (rule float_round_mono)
  hence "c \<le> float_round (t + float_round (cmod z))" by (simp add: assms(3))
  from sumC_keeps [OF this assms(3)] show ?thesis by (simp add: C t_def)
qed

lemma initC_entry_float_unit:
  "cmod (initC_entry_float freq cellSize wCellSize wSize overSample sSize p) \<le> 1"
proof -
  obtain k osj osi j i where
    "initC_entry_float freq cellSize wCellSize wSize overSample sSize p =
       initC_value_float freq cellSize wCellSize wSize overSample (c_div (sSize - 1) 2) k osj osi j i"
    by (simp add: initC_entry_float_def Let_def)
  with initC_value_float_unit [of freq cellSize wCellSize wSize overSample "c_div (sSize - 1) 2"
      k osj osi j i]
  show ?thesis by (simp add: cmod_def)
qed

lemma initC_fill_float_unit:
  assumes "0 \<le> sSize" "0 \<le> overSample" "0 \<le> wSize"
    and "n = sSize * sSize * overSample * overSample * wSize"
  shows "\<forall>z\<in>set (initC_fill_float freq cellSize wCellSize wSize overSample sSize
                    (replicate (nat n) 0)). cmod z \<le> 1"
proof
  fix z
  assume "z \<in> set (initC_fill_float freq cellSize wCellSize wSize overSample sSize
                    (replicate (nat n) 0))"
  then obtain m where m: "m < nat n"
    "z = initC_fill_float freq cellSize wCellSize wSize overSample sSize (replicate (nat n) 0) ! m"
    unfolding in_set_conv_nth initC_fill_float_length [OF assms(1,2,3)] by blast
  have p: "0 \<le> int m" "int m < n" using m(1) by simp_all
  have "z = initC_entry_float freq cellSize wCellSize wSize overSample sSize (int m)"
    using initC_fill_float_nth [OF assms p] m(2) by simp
  thus "cmod z \<le> 1" by (simp add: initC_entry_float_unit)
qed

lemma initC_sumC_saturates:
  assumes "0 \<le> sSize" "0 \<le> overSample" "0 \<le> wSize"
    and "n = sSize * sSize * overSample * overSample * wSize"
  shows "initC_sumC n (initC_fill_float freq cellSize wCellSize wSize overSample sSize
           (replicate (nat n) 0)) \<le> 16777216"
proof -
  define C where "C = initC_fill_float freq cellSize wCellSize wSize overSample sSize
           (replicate (nat n) 0)"
  have n0: "0 \<le> n" using assms by simp
  have l: "length C = nat n"
    unfolding C_def using assms(1,2,3) by (rule initC_fill_float_length)
  have u: "\<forall>z\<in>set C. cmod z \<le> 1"
    unfolding C_def using assms by (rule initC_fill_float_unit)
  have "initC_sumC n C = initC_sumC (int (length C)) C" using l n0 by simp
  also have "\<dots> = foldl (\<lambda>s z. float_round (s + float_round (cmod z))) 0 C"
    by (rule initC_sumC_foldl)
  also have "\<dots> \<le> 16777216" using sumC_bounds [OF _ _ u, of 0] by simp
  finally show ?thesis unfolding C_def .
qed

subsection \<open>A table that is not normalised\<close>

text \<open>
  The configuration \<open>freq[0] = 2\<^sup>2\<^sup>4\<close>, \<open>cellSize = 1\<close>, \<open>baseline = 2\<^sup>-\<^sup>1\<^sup>0\<close>, \<open>wSize = 8\<close>:
  \<^verbatim>\<open>support\<close> is \<open>192\<close>, \<^verbatim>\<open>wCellSize\<close> is \<open>4096\<close>, and on every plane \<open>w \<noteq> 0\<close> the
  argument of the cosine is at most \<open>74498 / 262144\<close> in magnitude, so that every
  entry of these planes is at least \<open>1/2\<close>.
\<close>

lemma cos_ge_half: "\<bar>t :: real\<bar> \<le> 1 / 2 \<Longrightarrow> 1 / 2 \<le> cos t"
proof -
  assume t: "\<bar>t\<bar> \<le> 1 / 2"
  have "1 / 2 \<le> pi / 3" using pi_ge_two by simp
  with t have "\<bar>t\<bar> \<le> pi / 3" by simp
  moreover have "pi / 3 \<le> pi" using pi_ge_two by simp
  ultimately have "cos (pi / 3) \<le> cos \<bar>t\<bar>"
    by (intro cos_monotone_0_pi_le) simp_all
  thus ?thesis by (simp add: cos_60)
qed

lemma double_round_exact:
  "double_round (1 / 1024) = 1 / 1024" "double_round (1 / 512) = 1 / 512"
  "double_round 16384 = 16384" "double_round 32768 = 32768" "double_round 128 = 128"
  "double_round 192 = 192" "double_round 193 = 193" "double_round 4096 = 4096"
  "double_round 68719476736 = 68719476736" "double_round 262144 = 262144"
  "double_round 37249 = 37249" "double_round 74498 = 74498" "double_round (1 / 2) = 1 / 2"
  by code_simp+

lemma float_round_exact:
  "float_round (1 / 2) = 1 / 2" "float_round 512 = 512" "float_round (1 / 32768) = 1 / 32768"
  "float_round (1 / 65536) = 1 / 65536"
  by code_simp+

lemma sqrt_exact: "sqrt 16384 = 128" "sqrt 68719476736 = 262144"
proof -
  have "sqrt (128\<^sup>2) = \<bar>128\<bar>" by (rule real_sqrt_abs)
  thus "sqrt 16384 = 128" by simp
  have "sqrt (262144\<^sup>2) = \<bar>262144\<bar>" by (rule real_sqrt_abs)
  thus "sqrt 68719476736 = 262144" by simp
qed

lemma saturating_support: "initC_support_double [16777216] 1 (1 / 1024) = Some 192"
proof -
  have c: "c_int32 192 = Some 192" by code_simp
  show ?thesis
    by (simp add: initC_support_double_def Let_def double_round_exact sqrt_exact c)
qed

lemma saturating_wCellSize: "initC_wCellSize_double [16777216] (1 / 1024) 8 = Some 4096"
  by (simp add: initC_wCellSize_double_def double_round_exact)

lemma saturating_fScale:
  assumes "1 \<le> \<bar>w\<bar>"
  shows "262144 \<le> initC_fScale [16777216] 1 4096 w"
proof -
  have "4096 \<le> \<bar>w\<bar> * 4096" using assms by simp
  hence "double_round 4096 \<le> double_round (\<bar>w\<bar> * 4096)" by (rule double_round_mono)
  hence "4096 \<le> double_round (\<bar>w\<bar> * 4096)" by (simp only: double_round_exact)
  hence "68719476736 \<le> double_round (\<bar>w\<bar> * 4096) * 16777216" by simp
  hence "double_round 68719476736 \<le> double_round (double_round (\<bar>w\<bar> * 4096) * 16777216)"
    by (rule double_round_mono)
  hence "68719476736 \<le> double_round (double_round (\<bar>w\<bar> * 4096) * 16777216)"
    by (simp only: double_round_exact)
  hence "sqrt 68719476736 \<le> sqrt (double_round (double_round (\<bar>w\<bar> * 4096) * 16777216))"
    by (simp only: real_sqrt_le_iff)
  hence "262144 \<le> sqrt (double_round (double_round (\<bar>w\<bar> * 4096) * 16777216))"
    by (simp only: sqrt_exact)
  hence "double_round 262144
           \<le> double_round (sqrt (double_round (double_round (\<bar>w\<bar> * 4096) * 16777216)))"
    by (rule double_round_mono)
  hence a: "262144 \<le> double_round (sqrt (double_round (double_round (\<bar>w\<bar> * 4096) * 16777216)))"
    by (simp only: double_round_exact)
  hence "double_round 262144 \<le> double_round
           (double_round (sqrt (double_round (double_round (\<bar>w\<bar> * 4096) * 16777216))) / 1)"
    by (intro double_round_mono) simp
  thus ?thesis by (simp add: initC_fScale_def double_round_exact)
qed

lemma saturating_denominator:
  assumes "1 \<le> \<bar>w\<bar>"
  shows "262144 \<le> \<bar>double_round (w * initC_fScale [16777216] 1 4096 w)\<bar>"
proof -
  note f = saturating_fScale [OF assms]
  show ?thesis
  proof (cases "0 \<le> w")
    case True
    hence "1 \<le> w" using assms by simp
    hence "1 * 262144 \<le> w * initC_fScale [16777216] 1 4096 w"
      using f by (intro mult_mono) simp_all
    hence "double_round 262144 \<le> double_round (w * initC_fScale [16777216] 1 4096 w)"
      by (intro double_round_mono) simp
    thus ?thesis by (simp add: double_round_exact)
  next
    case False
    hence "1 \<le> - w" using assms by simp
    hence "1 * 262144 \<le> (- w) * initC_fScale [16777216] 1 4096 w"
      using f by (intro mult_mono) simp_all
    hence "double_round 262144 \<le> double_round (- (w * initC_fScale [16777216] 1 4096 w))"
      by (intro double_round_mono) simp
    thus ?thesis by (simp add: double_round_exact double_round_minus)
  qed
qed

lemma saturating_square:
  assumes "0 \<le> os" "os \<le> 8" "0 \<le> j" "j \<le> 384"
  shows "double_round ((double_round (real_of_int (j - 192) +
           double_round (real_of_int os / real_of_int 8)))\<^sup>2) \<le> 37249"
proof -
  have "0 \<le> real_of_int os / real_of_int 8" "real_of_int os / real_of_int 8 \<le> 1"
    using assms(1,2) by simp_all
  hence d: "0 \<le> double_round (real_of_int os / real_of_int 8)"
    "double_round (real_of_int os / real_of_int 8) \<le> 1"
    using double_round_mono [of "real_of_int os / real_of_int 8" 1]
    by (simp_all add: double_round_nonneg double_round_1)
  have j: "- 192 \<le> real_of_int (j - 192)" "real_of_int (j - 192) \<le> 192"
    using assms(3,4) by simp_all
  have "double_round (- 193) \<le> double_round (real_of_int (j - 192) +
           double_round (real_of_int os / real_of_int 8))"
    using d(1) j(1) by (intro double_round_mono) linarith
  moreover have "double_round (real_of_int (j - 192) +
           double_round (real_of_int os / real_of_int 8)) \<le> double_round 193"
    using d(2) j(2) by (intro double_round_mono) linarith
  ultimately have "\<bar>double_round (real_of_int (j - 192) +
           double_round (real_of_int os / real_of_int 8))\<bar> \<le> \<bar>193\<bar>"
    by (simp add: double_round_minus double_round_exact)
  hence "(double_round (real_of_int (j - 192) +
           double_round (real_of_int os / real_of_int 8)))\<^sup>2 \<le> 193\<^sup>2"
    by (simp only: abs_le_square_iff)
  hence "double_round ((double_round (real_of_int (j - 192) +
           double_round (real_of_int os / real_of_int 8)))\<^sup>2) \<le> double_round 37249"
    by (intro double_round_mono) simp
  thus ?thesis by (simp only: double_round_exact)
qed

lemma saturating_r2:
  assumes "0 \<le> osj" "osj \<le> 8" "0 \<le> osi" "osi \<le> 8" "0 \<le> j" "j \<le> 384" "0 \<le> i" "i \<le> 384"
  shows "initC_r2 8 192 osj osi j i \<le> 74498"
proof -
  from saturating_square [OF assms(1,2,5,6)] saturating_square [OF assms(3,4,7,8)]
  have "initC_r2 8 192 osj osi j i \<le> double_round 74498"
    unfolding initC_r2_def Let_def by (intro double_round_mono) simp
  thus ?thesis by (simp only: double_round_exact)
qed

lemma saturating_value:
  assumes "k \<noteq> 4"
    and "0 \<le> osj" "osj \<le> 8" "0 \<le> osi" "osi \<le> 8" "0 \<le> j" "j \<le> 384" "0 \<le> i" "i \<le> 384"
  shows "initC_value_float [16777216] 1 4096 8 8 192 k osj osi j i =
           Complex (Re (initC_value_float [16777216] 1 4096 8 8 192 k osj osi j i)) 0 \<and>
         1 / 2 \<le> Re (initC_value_float [16777216] 1 4096 8 8 192 k osj osi j i)"
proof -
  define w where "w = real_of_int (k - c_div 8 2)"
  have c: "c_div 8 2 = 4" by (simp add: c_div_def)
  have "k - 4 \<noteq> 0" using assms(1) by simp
  hence "1 \<le> \<bar>k - 4\<bar>" by simp
  hence w: "1 \<le> \<bar>w\<bar>" unfolding w_def c by linarith
  hence w0: "w \<noteq> 0" by auto
  define D where "D = double_round (w * initC_fScale [16777216] 1 4096 w)"
  define r2 where "r2 = initC_r2 8 192 osj osi j i"
  have D: "262144 \<le> \<bar>D\<bar>" unfolding D_def using w by (rule saturating_denominator)
  have r: "0 \<le> r2" "r2 \<le> 74498"
    unfolding r2_def using assms(2-9) by (simp_all add: initC_r2_nonneg saturating_r2)
  have "\<bar>r2 / D\<bar> = r2 / \<bar>D\<bar>" using r(1) by simp
  also have "\<dots> \<le> 74498 / \<bar>D\<bar>" using r(2) D by (intro divide_right_mono) simp_all
  also have "\<dots> \<le> 74498 / 262144" using D by (intro divide_left_mono) simp_all
  also have "\<dots> \<le> 1 / 2" by simp
  finally have "\<bar>r2 / D\<bar> \<le> 1 / 2" .
  hence q: "- (1 / 2) \<le> r2 / D" "r2 / D \<le> 1 / 2" by linarith+
  have "double_round (- (1 / 2)) \<le> double_round (r2 / D)" using q(1) by (rule double_round_mono)
  moreover have "double_round (r2 / D) \<le> double_round (1 / 2)"
    using q(2) by (rule double_round_mono)
  ultimately have "\<bar>double_round (r2 / D)\<bar> \<le> 1 / 2"
    by (simp add: double_round_minus double_round_exact)
  hence "1 / 2 \<le> cos (double_round (r2 / D))" by (rule cos_ge_half)
  hence "double_round (1 / 2) \<le> double_round (cos (double_round (r2 / D)))"
    by (rule double_round_mono)
  hence "1 / 2 \<le> double_round (cos (double_round (r2 / D)))"
    by (simp only: double_round_exact)
  hence "float_round (1 / 2) \<le> float_round (double_round (cos (double_round (r2 / D))))"
    by (rule float_round_mono)
  hence v: "1 / 2 \<le> float_round (double_round (cos (double_round (r2 / D))))"
    by (simp only: float_round_exact)
  have "initC_value_float [16777216] 1 4096 8 8 192 k osj osi j i
          = Complex (float_round (double_round (cos (double_round (r2 / D))))) 0"
    unfolding initC_value_float_def Let_def w_def [symmetric] D_def [symmetric] r2_def [symmetric]
    using w0 by simp
  thus ?thesis using v by simp
qed

lemma saturating_planes: "initC_plane_finite [16777216] 1 4096 8 k"
proof (cases "k = 4")
  case True
  thus ?thesis by (simp add: initC_plane_finite_def c_div_def)
next
  case False
  define w where "w = real_of_int (k - c_div 8 2)"
  have c: "c_div 8 2 = 4" by (simp add: c_div_def)
  have "k - 4 \<noteq> 0" using False by simp
  hence "1 \<le> \<bar>k - 4\<bar>" by simp
  hence w: "1 \<le> \<bar>w\<bar>" unfolding w_def c by linarith
  from saturating_denominator [OF w]
  have "double_round (w * initC_fScale [16777216] 1 4096 w) \<noteq> 0" by auto
  moreover have "0 \<le> double_round (double_round (\<bar>w\<bar> * 4096) * 16777216)"
    by (intro double_round_nonneg mult_nonneg_nonneg) simp_all
  ultimately show ?thesis
    unfolding initC_plane_finite_def Let_def w_def [symmetric] by simp
qed

lemma saturating_entry:
  assumes "0 \<le> p" "p div 9486400 \<noteq> 4"
  shows "\<exists>x. initC_entry_float [16777216] 1 4096 8 8 385 p = Complex x 0 \<and> 1 / 2 \<le> x"
proof -
  define q1 where "q1 = p mod 9486400"
  define q2 where "q2 = q1 mod 1185800"
  define q3 where "q3 = q2 mod 148225"
  have q1: "0 \<le> q1" "q1 \<le> 9486399" unfolding q1_def by simp_all
  have q2: "0 \<le> q2" "q2 \<le> 1185799" unfolding q2_def by simp_all
  have q3: "0 \<le> q3" "q3 \<le> 148224" unfolding q3_def by simp_all
  have osj: "0 \<le> q1 div 1185800" "q1 div 1185800 \<le> 8"
    using q1 zdiv_mono1 [of q1 9486399 1185800] by simp_all
  have osi: "0 \<le> q2 div 148225" "q2 div 148225 \<le> 8"
    using q2 zdiv_mono1 [of q2 1185799 148225] by simp_all
  have j: "0 \<le> q3 div 385" "q3 div 385 \<le> 384"
    using q3 zdiv_mono1 [of q3 148224 385] by simp_all
  have i: "0 \<le> q3 mod 385" "q3 mod 385 \<le> 384" by simp_all
  have c: "c_div 384 2 = 192" by (simp add: c_div_def)
  have e: "initC_entry_float [16777216] 1 4096 8 8 385 p =
      initC_value_float [16777216] 1 4096 8 8 192 (p div 9486400) (q1 div 1185800) (q2 div 148225)
        (q3 div 385) (q3 mod 385)"
    by (simp add: initC_entry_float_def Let_def c q1_def q2_def q3_def)
  from saturating_value [OF assms(2) osj osi j i] show ?thesis
    unfolding e by blast
qed

text \<open>
  C8 fails on the code.  For \<open>freq = [16777216]\<close>, \<open>cellSize = 1\<close>,
  \<open>baseline = 1/1024\<close> and \<open>wSize = 8\<close>, \<^verbatim>\<open>initC\<close> returns \<open>support = 192\<close>,
  \<open>overSample = 8\<close>, \<open>wCellSize = 4096\<close> and a table of \<open>75891200\<close> entries whose
  magnitudes sum, divided by \<open>wSize * overSample\<^sup>2 = 512\<close>, to at least \<open>1.97\<close> and
  not to \<open>1\<close>: the \<open>66404800\<close> entries of the seven planes \<open>w \<noteq> 0\<close> are at least
  \<open>1/2\<close> each, \<^verbatim>\<open>sumC\<close> cannot pass \<open>16777216\<close>, and every entry is multiplied by
  \<open>512 / sumC \<ge> 2\<^sup>-\<^sup>1\<^sup>5\<close>.  The source announces a normalisation
  (\<^verbatim>\<open>// Now normalise the convolution function\<close>) and misses it by the precision of
  its accumulator.
\<close>

theorem initC_float_not_normalised:
  "\<exists>C. initC_float [16777216] 1 (1 / 1024) 8 = Some (192, 8, 4096, C) \<and>
        length C = 75891200 \<and>
        197 / 100 \<le> sum_list (map cmod C) / real_of_int (8 * 8 * 8)"
proof -
  define n :: int where "n = 75891200"
  define Cf where "Cf = initC_fill_float [16777216] 1 4096 8 8 385 (replicate (nat n) 0)"
  have nS: "n = 385 * 385 * 8 * 8 * 8" by (simp add: n_def)
  have n0: "0 < n" by (simp add: n_def)
  have len: "length Cf = nat n" unfolding Cf_def by (rule initC_fill_float_length) simp_all
  have leni: "int (length Cf) = n" using len n0 by simp
  have nth: "Cf ! nat p = initC_entry_float [16777216] 1 4096 8 8 385 p" if "0 \<le> p" "p < n" for p
    unfolding Cf_def using _ _ _ nS that by (rule initC_fill_float_nth) simp_all
  have unit: "\<forall>z\<in>set Cf. cmod z \<le> 1"
    unfolding Cf_def using _ _ _ nS by (rule initC_fill_float_unit) simp_all
  have big: "\<exists>x. Cf ! nat p = Complex x 0 \<and> 1 / 2 \<le> x"
    if "0 \<le> p" "p < n" "p div 9486400 \<noteq> 4" for p
    using saturating_entry [OF that(1,3)] nth [OF that(1,2)] by simp
  define s0 where "s0 = initC_sumC n Cf"
  have s0_eq: "s0 = foldl (\<lambda>s z. float_round (s + float_round (cmod z))) 0 Cf"
    unfolding s0_def leni [symmetric] by (rule initC_sumC_foldl)
  have s0_hi: "s0 \<le> 16777216"
    unfolding s0_eq using sumC_bounds [OF _ _ unit, of 0] by simp
  have s0_lo: "1 / 2 \<le> s0"
  proof -
    from big [of 0] n0 obtain x where x: "Cf ! nat 0 = Complex x 0" "1 / 2 \<le> x" by auto
    have m: "Cf ! 0 \<in> set Cf" using len n0 by (intro nth_mem) simp
    have c: "1 / 2 \<le> cmod (Cf ! 0)" using x by (simp add: cmod_def)
    show ?thesis
      unfolding s0_eq using m c float_round_exact(1) _ unit by (rule sumC_reaches) simp_all
  qed
  define s where "s = float_round (float_round (real_of_int (8 * 8 * 8)) / s0)"
  have s: "1 / 32768 \<le> s"
  proof -
    have "512 / 16777216 \<le> 512 / s0" using s0_lo s0_hi by (intro divide_left_mono) simp_all
    hence "1 / 32768 \<le> 512 / s0" by simp
    hence "float_round (1 / 32768) \<le> float_round (512 / s0)" by (rule float_round_mono)
    thus ?thesis by (simp add: s_def float_round_exact)
  qed
  define C where "C = map (\<lambda>z. float_times z (Complex s 0)) Cf"
  have norm: "initC_normalise_float 8 8 n Cf = Some C"
  proof -
    have "initC_sumC n Cf \<noteq> 0" using s0_lo by (simp add: s0_def [symmetric])
    from initC_normalise_float_map [OF leni this, of 8 8]
    show ?thesis by (simp add: int32_def C_def s_def s0_def)
  qed
  have res: "initC_float [16777216] 1 (1 / 1024) 8 = Some (192, 8, 4096, C)"
  proof (rule initC_float_Some [OF saturating_support saturating_wCellSize, where n = n])
    show "n = (2 * 192 + 1) * (2 * 192 + 1) * 8 * 8 * 8" by (simp add: n_def)
    show "0 \<le> n" using n0 by simp
    show "list_all int32 [2 * 192, 2 * 192 + 1, (2 * 192 + 1) * (2 * 192 + 1),
           (2 * 192 + 1) * (2 * 192 + 1) * 8, (2 * 192 + 1) * (2 * 192 + 1) * 8 * 8, n]"
      by (simp add: int32_def n_def)
    show "list_all (initC_plane_finite [16777216] 1 4096 8) [0..8 - 1]"
      unfolding list_all_iff using saturating_planes by blast
    have "2 * 192 + 1 = (385 :: int)" by simp
    thus "initC_normalise_float 8 8 n
           (initC_fill_float [16777216] 1 4096 8 8 (2 * 192 + 1) (replicate (nat n) 0)) = Some C"
      using norm by (simp only: Cf_def)
  qed
  have lenC: "length C = 75891200" using len by (simp add: C_def n_def)
  define N1 :: nat where "N1 = 37945600"
  define N2 :: nat where "N2 = 47432000"
  have N: "N1 \<le> N2" "N2 \<le> length C" by (simp_all add: N1_def N2_def lenC)
  have nonneg: "0 \<le> cmod (C ! m)" for m by simp
  have large: "1 / 65536 \<le> cmod (C ! m)" if m: "m < length C" "int m div 9486400 \<noteq> 4" for m
  proof -
    have p: "0 \<le> int m" "int m < n" using m(1) by (simp_all add: lenC n_def)
    from big [OF p m(2)] obtain x where x: "Cf ! m = Complex x 0" "1 / 2 \<le> x" by auto
    have "C ! m = float_times (Cf ! m) (Complex s 0)"
      using m(1) by (simp add: C_def)
    hence e: "C ! m = Complex (float_round (float_round (x * s))) 0"
      by (simp only: x(1) float_times_real)
    have "1 / 2 * (1 / 32768) \<le> x * s" using x(2) s by (intro mult_mono) simp_all
    hence "1 / 65536 \<le> x * s" by simp
    hence "float_round (1 / 65536) \<le> float_round (x * s)" by (rule float_round_mono)
    hence "1 / 65536 \<le> float_round (x * s)" by (simp only: float_round_exact)
    hence "float_round (1 / 65536) \<le> float_round (float_round (x * s))"
      by (rule float_round_mono)
    hence "1 / 65536 \<le> float_round (float_round (x * s))" by (simp only: float_round_exact)
    thus ?thesis unfolding e by (simp add: cmod_def)
  qed
  have A: "real N1 * (1 / 65536) \<le> (\<Sum>m = 0..<N1. cmod (C ! m))"
  proof -
    have "real (card {0..<N1}) * (1 / 65536) \<le> (\<Sum>m = 0..<N1. cmod (C ! m))"
    proof (rule sum_bounded_below)
      fix m assume "m \<in> {0..<N1}"
      hence m: "m < N1" by simp
      hence "int m \<le> 37945599" by (simp add: N1_def)
      from zdiv_mono1 [OF this, of 9486400] have "int m div 9486400 \<noteq> 4" by simp
      moreover have "m < length C" using m N by simp
      ultimately show "1 / 65536 \<le> cmod (C ! m)" by (intro large)
    qed
    thus ?thesis by simp
  qed
  have B: "0 \<le> (\<Sum>m = N1..<N2. cmod (C ! m))"
    by (rule sum_nonneg) simp
  have D: "real (length C - N2) * (1 / 65536) \<le> (\<Sum>m = N2..<length C. cmod (C ! m))"
  proof -
    have "real (card {N2..<length C}) * (1 / 65536) \<le> (\<Sum>m = N2..<length C. cmod (C ! m))"
    proof (rule sum_bounded_below)
      fix m assume "m \<in> {N2..<length C}"
      hence m: "N2 \<le> m" "m < length C" by simp_all
      hence "47432000 \<le> int m" by (simp add: N2_def)
      from zdiv_mono1 [OF this, of 9486400] have "int m div 9486400 \<noteq> 4" by simp
      thus "1 / 65536 \<le> cmod (C ! m)" using m(2) by (intro large)
    qed
    thus ?thesis by simp
  qed
  have "sum_list (map cmod C) = (\<Sum>m = 0..<length C. cmod (C ! m))"
    by (simp add: sum_list_sum_nth)
  also have "\<dots> = (\<Sum>m = 0..<N2. cmod (C ! m)) + (\<Sum>m = N2..<length C. cmod (C ! m))"
    using N(2) by (simp add: sum.atLeastLessThan_concat)
  also have "(\<Sum>m = 0..<N2. cmod (C ! m))
               = (\<Sum>m = 0..<N1. cmod (C ! m)) + (\<Sum>m = N1..<N2. cmod (C ! m))"
    using N(1) by (simp add: sum.atLeastLessThan_concat)
  finally have "real N1 * (1 / 65536) + real (length C - N2) * (1 / 65536)
                  \<le> sum_list (map cmod C)"
    using A B D by linarith
  moreover have "real N1 = 37945600" "real (length C - N2) = 28459200"
    by (simp_all add: N1_def N2_def lenC)
  ultimately have "66404800 / 65536 \<le> sum_list (map cmod C)" by simp
  hence "197 / 100 \<le> sum_list (map cmod C) / real_of_int (8 * 8 * 8)" by simp
  with res lenC show ?thesis by blast
qed

subsection \<open>An offset outside the table\<close>

lemma initC_float_one_plane:
  "\<exists>C. initC_float [1] 1 1 1 = Some (1, 8, 2, C) \<and> length C = 576"
proof -
  define n :: int where "n = 576"
  define Cf where "Cf = initC_fill_float [1] 1 2 1 8 3 (replicate (nat n) 0)"
  have nS: "n = 3 * 3 * 8 * 8 * 1" by (simp add: n_def)
  have n0: "0 < n" by (simp add: n_def)
  have len: "length Cf = nat n" unfolding Cf_def by (rule initC_fill_float_length) simp_all
  have leni: "int (length Cf) = n" using len n0 by simp
  have unit: "\<forall>z\<in>set Cf. cmod z \<le> 1"
    unfolding Cf_def using _ _ _ nS by (rule initC_fill_float_unit) simp_all
  have d: "double_round (3 / 2) = 3 / 2" "double_round 2 = 2" "c_int32 (3 / 2) = Some 1"
    by code_simp+
  have sup: "initC_support_double [1] 1 1 = Some 1"
    by (simp add: initC_support_double_def Let_def double_round_1 d)
  have wc: "initC_wCellSize_double [1] 1 1 = Some 2"
    by (simp add: initC_wCellSize_double_def d)
  have centre: "Cf ! nat 4 = 1"
  proof -
    have "Cf ! nat 4 = initC_entry_float [1] 1 2 1 8 3 4"
      unfolding Cf_def using _ _ _ nS by (rule initC_fill_float_nth) (simp_all add: n_def)
    also have "\<dots> = initC_value_float [1] 1 2 1 8 1 0 0 0 1 1"
      by (simp add: initC_entry_float_def Let_def c_div_def)
    also have "\<dots> = 1"
      by (simp add: initC_value_float_def initC_r2_def Let_def c_div_def double_round_0
          double_round_1 float_round_1 one_complex.code)
    finally show ?thesis .
  qed
  define s0 where "s0 = initC_sumC n Cf"
  have s0_eq: "s0 = foldl (\<lambda>s z. float_round (s + float_round (cmod z))) 0 Cf"
    unfolding s0_def leni [symmetric] by (rule initC_sumC_foldl)
  have s0_lo: "1 \<le> s0"
  proof -
    have m: "Cf ! 4 \<in> set Cf" using len by (intro nth_mem) (simp add: n_def)
    have c: "1 \<le> cmod (Cf ! 4)" using centre by simp
    show ?thesis
      unfolding s0_eq using m c float_round_1 _ unit by (rule sumC_reaches) simp_all
  qed
  define C where "C = map (\<lambda>z. float_times z (Complex (float_round
                   (float_round (real_of_int (1 * 8 * 8)) / initC_sumC n Cf)) 0)) Cf"
  have norm: "initC_normalise_float 1 8 n Cf = Some C"
  proof -
    have "initC_sumC n Cf \<noteq> 0" using s0_lo by (simp add: s0_def [symmetric])
    from initC_normalise_float_map [OF leni this, of 1 8]
    show ?thesis by (simp add: int32_def C_def)
  qed
  have res: "initC_float [1] 1 1 1 = Some (1, 8, 2, C)"
  proof (rule initC_float_Some [OF sup wc, where n = n])
    show "n = (2 * 1 + 1) * (2 * 1 + 1) * 8 * 8 * 1" by (simp add: n_def)
    show "0 \<le> n" using n0 by simp
    show "list_all int32 [2 * 1, 2 * 1 + 1, (2 * 1 + 1) * (2 * 1 + 1),
           (2 * 1 + 1) * (2 * 1 + 1) * 8, (2 * 1 + 1) * (2 * 1 + 1) * 8 * 8, n]"
      by (simp add: int32_def n_def)
    show "list_all (initC_plane_finite [1] 1 2 1) [0..1 - 1]"
      by (simp add: initC_plane_finite_def c_div_def)
    have "2 * 1 + 1 = (3 :: int)" by simp
    thus "initC_normalise_float 1 8 n
           (initC_fill_float [1] 1 2 1 8 (2 * 1 + 1) (replicate (nat n) 0)) = Some C"
      using norm by (simp only: Cf_def)
  qed
  have "length C = 576" using len by (simp add: C_def n_def)
  with res show ?thesis by blast
qed

text \<open>
  C10 fails on the code.  For \<open>freq = [1]\<close>, \<open>cellSize = 1\<close>, \<open>baseline = 1\<close> and
  \<open>wSize = 1\<close>, \<^verbatim>\<open>initC\<close> returns \<open>support = 1\<close>, \<open>overSample = 8\<close>, \<open>wCellSize = 2\<close>
  and a table of \<open>576\<close> entries.  For the sample \<open>u = v = -2\<^sup>-\<^sup>6\<^sup>0\<close>, \<open>w = 0\<close> the
  integer part is \<open>iu = -1\<close>, and \<^verbatim>\<open>uScaled - Coord(iu)\<close>, exactly \<open>1 - 2\<^sup>-\<^sup>6\<^sup>0\<close>, is
  rounded to \<open>1.0\<close>: \<^verbatim>\<open>fracu\<close> and \<^verbatim>\<open>fracv\<close> are \<open>8 = overSample\<close>, outside
  \<open>[0, overSample - 1]\<close>, the w-plane is \<open>woff = 0\<close>, inside \<open>[0, wSize)\<close>, and
  \<^verbatim>\<open>cOffset\<close> is \<open>9 * (8 + 8 * 8) = 648\<close>, above \<open>576 - 9 = 567\<close>.  With these
  offsets \<^verbatim>\<open>gridKernel\<close> and \<^verbatim>\<open>degridKernel\<close> read outside the table.  In exact
  arithmetic the same sample gives \<open>cOffset = 567\<close>.
\<close>

theorem initCOffset_double_leaves_table:
  "\<exists>C. initC_float [1] 1 1 1 = Some (1, 8, 2, C) \<and> length C = 576 \<and>
        initCOffset_frac_double 8 (- 1 / 2 ^ 60) (- 1) = Some 8 \<and>
        initCOffset_double [- 1 / 2 ^ 60] [- 1 / 2 ^ 60] [0] [1] 1 2 1 4 1 8
          = Some ([648], [1], [1]) \<and>
        gridKernel [1] 1 C [648] [1] [1] (replicate 16 0) 4 = None \<and>
        degridKernel (replicate 16 1) 4 1 C [648] [1] [1] [0] = None \<and>
        initCOffset [- 1 / 2 ^ 60] [- 1 / 2 ^ 60] [0] [1] 1 2 1 4 1 8 = Some ([567], [1], [1])"
proof -
  from initC_float_one_plane obtain C where
    C: "initC_float [1] 1 1 1 = Some (1, 8, 2, C)" "length C = 576" by blast
  have a: "initCOffset_frac_double 8 (- 1 / 2 ^ 60) (- 1) = Some 8"
    by code_simp
  have b: "initCOffset_double [- 1 / 2 ^ 60] [- 1 / 2 ^ 60] [0] [1] 1 2 1 4 1 8
             = Some ([648], [1], [1])"
    by code_simp
  have c: "initCOffset [- 1 / 2 ^ 60] [- 1 / 2 ^ 60] [0] [1] 1 2 1 4 1 8 = Some ([567], [1], [1])"
    by code_simp
  have g: "gridKernel [1] 1 C [648] [1] [1] (replicate 16 0) 4 = None"
    using C(2)
    by (simp add: gridKernel_def gridKernel_dind.simps [of 0] gridKernel_suppv.simps [of 0]
        gridKernel_suppu.simps [of 0] vec_at_def)
  have d: "degridKernel (replicate 16 1) 4 1 C [648] [1] [1] [0] = None"
    using C(2)
    by (simp add: degridKernel_def degridKernel_dind.simps [of 0] degridKernel_sample_def
        degridKernel_suppv.simps [of 0] degridKernel_suppu.simps [of 0] vec_at_def)
  from C a b c g d show ?thesis by blast
qed

end
